theory Spec2Isabelle
  imports Main
begin

section \<open>Inlay hints: data model\<close>

text \<open>
  The development follows \<^verbatim>\<open>src/inlay_hints.ts\<close>: the class \<^verbatim>\<open>HintsUpdater\<close>, which
  keeps one \<^verbatim>\<open>RustSourceFile\<close> per tracked document, fetches the hints of every tracked
  document from the language server and paints them as virtual text.
\<close>

text \<open>
  Modelled from the spec: the hint kinds of \<^verbatim>\<open>ra.InlayHint.Kind\<close> (declared in
  \<^verbatim>\<open>lsp_ext.ts\<close>, which is not among the sources): type, parameter and chaining.
\<close>

datatype kind = TypeHint | ParameterHint | ChainingHint

record position =
  line :: nat
  character :: nat

record lsp_range =
  start :: position
  range_end :: position

text \<open>\<^verbatim>\<open>ra.InlayHint\<close>: the fields the updater reads are \<^verbatim>\<open>range\<close>, \<^verbatim>\<open>kind\<close> and \<^verbatim>\<open>label\<close>.\<close>

record inlayHint =
  hint_range :: lsp_range
  kind :: kind
  label :: string

text \<open>\<^verbatim>\<open>interface InlaysDecorations\<close>.\<close>

record inlaysDecorations =
  dec_type :: "inlayHint list"
  dec_param :: "inlayHint list"
  dec_chaining :: "inlayHint list"

text \<open>\<^verbatim>\<open>ctx.config.inlayHints\<close>: the options the updater reads.\<close>

record inlayHintsConfig =
  chainingHints :: bool
  typeHints :: bool
  chainingHintsSeparator :: string
  typeHintsSeparator :: string
  refreshOnInsertMode :: bool

text \<open>
  The rendering sink. One call \<^verbatim>\<open>buffer.setVirtualText(ns, line, chunks, {})\<close> is one
  \<open>virtualText\<close>; the content of the updater's namespace in one buffer is the list of
  the calls made since the namespace was last cleared in that buffer.
\<close>

record virtualText =
  vline :: nat
  chunks :: "(string \<times> string) list"

definition setVirtualText :: "nat \<Rightarrow> (string \<times> string) list \<Rightarrow> virtualText list \<Rightarrow> virtualText list" where
  "setVirtualText l cs buf = buf @ [\<lparr>vline = l, chunks = cs\<rparr>]"

definition clearNamespace :: "virtualText list \<Rightarrow> virtualText list" where
  "clearNamespace buf = []"

section \<open>Rendering\<close>

text \<open>The first loop of \<^verbatim>\<open>renderHints\<close>: the \<^verbatim>\<open>switch\<close> over \<^verbatim>\<open>hint.kind\<close>.\<close>

fun bucket :: "inlayHint list \<Rightarrow> inlaysDecorations \<Rightarrow> inlaysDecorations" where
  "bucket [] decorations = decorations"
| "bucket (hint # hints) decorations =
     bucket hints
       (case kind hint of
          TypeHint \<Rightarrow> decorations\<lparr>dec_type := dec_type decorations @ [hint]\<rparr>
        | ChainingHint \<Rightarrow> decorations\<lparr>dec_chaining := dec_chaining decorations @ [hint]\<rparr>
        | ParameterHint \<Rightarrow> decorations)"

text \<open>The loops over one bucket: one \<^verbatim>\<open>setVirtualText\<close> per item.\<close>

fun draw :: "string \<Rightarrow> string \<Rightarrow> inlayHint list \<Rightarrow> virtualText list \<Rightarrow> virtualText list" where
  "draw sep hl [] buf = buf"
| "draw sep hl (item # items) buf =
     draw sep hl items
       (setVirtualText (line (range_end (hint_range item))) [(sep @ label item, hl)] buf)"

definition renderHints :: "inlayHintsConfig \<Rightarrow> inlayHint list \<Rightarrow> virtualText list \<Rightarrow> virtualText list" where
  "renderHints cfg hints buf =
     (let decorations = bucket hints \<lparr>dec_type = [], dec_param = [], dec_chaining = []\<rparr>;
          buf1 = clearNamespace buf;
          buf2 = (if chainingHints cfg
                  then draw (chainingHintsSeparator cfg) ''CocRustChainingHint''
                         (dec_chaining decorations) buf1
                  else buf1)
      in if typeHints cfg
         then draw (typeHintsSeparator cfg) ''CocRustTypeHint'' (dec_type decorations) buf2
         else buf2)"

text \<open>What one hint is painted as, for a separator and a highlight group.\<close>

definition overlay_of :: "string \<Rightarrow> string \<Rightarrow> inlayHint \<Rightarrow> virtualText" where
  "overlay_of sep hl item =
     \<lparr>vline = line (range_end (hint_range item)), chunks = [(sep @ label item, hl)]\<rparr>"

text \<open>The two hints and the configuration of the spec's scenarios 1 and 2.\<close>

definition hint_at :: "kind \<Rightarrow> string \<Rightarrow> nat \<Rightarrow> inlayHint" where
  "hint_at k l n =
     \<lparr>hint_range = \<lparr>start = \<lparr>line = n, character = 0\<rparr>, range_end = \<lparr>line = n, character = 0\<rparr>\<rparr>,
      kind = k, label = l\<rparr>"

definition scenario_hints :: "inlayHint list" where
  "scenario_hints = [hint_at TypeHint '': i32'' 3, hint_at ChainingHint ''-> i32'' 5]"

definition scenario_config :: "bool \<Rightarrow> inlayHintsConfig" where
  "scenario_config ty =
     \<lparr>chainingHints = True, typeHints = ty,
      chainingHintsSeparator = [CHR '' '', CHR 0xBB, CHR '' ''],
      typeHintsSeparator = '': '', refreshOnInsertMode = False\<rparr>"

section \<open>The updater and its host\<close>

text \<open>
  A document of the editor. \<^verbatim>\<open>isRustDocument\<close> is defined in \<^verbatim>\<open>ctx.ts\<close>, which is not
  among the sources: its answer on a document is carried by the document. A
  \<^verbatim>\<open>Document\<close> of the editor and its \<^verbatim>\<open>textDocument\<close> have the same \<^verbatim>\<open>uri\<close>, and the
  buffer of a document is addressed by that \<^verbatim>\<open>uri\<close>.
\<close>

record textDocument =
  uri :: string
  isRustDocument :: bool

text \<open>
  \<^verbatim>\<open>interface RustSourceFile\<close>. A \<^verbatim>\<open>CancellationTokenSource\<close> is an object compared by
  identity (\<^verbatim>\<open>file.inlaysRequest === tokenSource\<close>): the model numbers the sources in
  the order of their allocation.
\<close>

record rustSourceFile =
  inlaysRequest :: "nat option"
  document :: textDocument

text \<open>
  The three listeners the constructor attaches. Only the last two are pushed on
  \<^verbatim>\<open>this.disposables\<close>: the \<^verbatim>\<open>Disposable\<close> that \<^verbatim>\<open>events.on('InsertLeave', ...)\<close>
  returns is dropped.
\<close>

datatype listener = InsertLeaveListener | ChangeListener | OpenListener

text \<open>How the backend request of one fetch ends.\<close>

datatype backendError = RequestCancelled | RequestFailed

text \<open>
  A fetch in flight: the promise \<^verbatim>\<open>sendRequestWithRetry(...)\<close> of one call of
  \<^verbatim>\<open>fetchHints(file)\<close> with what its handlers close over: \<^verbatim>\<open>tokenSource\<close>, the
  file (by its key \<^verbatim>\<open>uri\<close> of \<^verbatim>\<open>sourceFiles\<close>: an entry is never removed or replaced
  by another object) and \<^verbatim>\<open>current\<close> of the pass that issued it.
\<close>

record fetchTask =
  tokenSource :: nat
  file_uri :: string
  current :: "textDocument option"

text \<open>
  The state: the fields of \<^verbatim>\<open>HintsUpdater\<close>, the configuration, the host editor
  (listeners it holds, the document \<^verbatim>\<open>workspace.document\<close> resolves to, insert mode,
  the namespace's content per buffer) and the run time (the token sources allocated
  and cancelled, the fetches in flight, and the calls of \<^verbatim>\<open>syncAndRenderHints\<close> and
  \<^verbatim>\<open>toggle\<close> suspended at \<^verbatim>\<open>await workspace.document\<close>).
\<close>

record state =
  sourceFiles :: "(string \<times> rustSourceFile) list"
  disposables :: "listener list"
  inlayHintsEnabled :: bool
  config :: inlayHintsConfig
  listeners :: "listener list"
  activeDocument :: "textDocument option"
  insertMode :: bool
  namespace :: "string \<Rightarrow> virtualText list"
  tokenSources :: nat
  cancelled :: "nat set"
  fetches :: "fetchTask list"
  syncsAwaiting :: nat
  togglesAwaiting :: nat

text \<open>\<^verbatim>\<open>Map.prototype.set\<close>: an existing key keeps its place, a new one goes last.\<close>

fun map_set :: "'k \<Rightarrow> 'v \<Rightarrow> ('k \<times> 'v) list \<Rightarrow> ('k \<times> 'v) list" where
  "map_set k v [] = [(k, v)]"
| "map_set k v ((k', v') # m) =
     (if k' = k then (k, v) # m else (k', v') # map_set k v m)"

text \<open>The token recorded for a document: \<^verbatim>\<open>sourceFiles.get(uri)?.inlaysRequest\<close>.\<close>

definition pendingRequest :: "state \<Rightarrow> string \<Rightarrow> nat option" where
  "pendingRequest s u =
     (case map_of (sourceFiles s) u of None \<Rightarrow> None | Some file \<Rightarrow> inlaysRequest file)"

text \<open>\<^verbatim>\<open>doc.buffer.clearNamespace(this.inlayHintsNS)\<close> on the buffer of \<open>u\<close>.\<close>

definition clear_buffer :: "string \<Rightarrow> state \<Rightarrow> state" where
  "clear_buffer u s = s\<lparr>namespace := (namespace s)(u := clearNamespace (namespace s u))\<rparr>"

text \<open>\<^verbatim>\<open>file.inlaysRequest?.cancel()\<close>.\<close>

definition cancel_request :: "rustSourceFile \<Rightarrow> state \<Rightarrow> state" where
  "cancel_request file s =
     (case inlaysRequest file of
        None \<Rightarrow> s
      | Some t \<Rightarrow> s\<lparr>cancelled := insert t (cancelled s)\<rparr>)"

text \<open>
  \<^verbatim>\<open>fetchHints(file)\<close> up to the backend call, for the file at key \<open>u\<close>, with the
  handler that \<^verbatim>\<open>syncAndRenderHints\<close> chains to it (it closes over \<open>cur\<close>).
\<close>

definition fetchHints :: "textDocument option \<Rightarrow> string \<Rightarrow> state \<Rightarrow> state" where
  "fetchHints cur u s =
     (case map_of (sourceFiles s) u of
        None \<Rightarrow> s
      | Some file \<Rightarrow>
          (let s1 = cancel_request file s;
               t = tokenSources s1;
               s2 = s1\<lparr>tokenSources := Suc t,
                        sourceFiles := map_set u (file\<lparr>inlaysRequest := Some t\<rparr>) (sourceFiles s1)\<rparr>
           in s2\<lparr>fetches := fetches s2 @ [\<lparr>tokenSource = t, file_uri = u, current = cur\<rparr>]\<rparr>))"

text \<open>\<^verbatim>\<open>syncAndRenderHints\<close> up to its \<^verbatim>\<open>await\<close>, and from it on.\<close>

definition syncAndRenderHints :: "state \<Rightarrow> state" where
  "syncAndRenderHints s =
     (if \<not> inlayHintsEnabled s then s else s\<lparr>syncsAwaiting := Suc (syncsAwaiting s)\<rparr>)"

definition syncAndRenderHints_resume :: "state \<Rightarrow> state" where
  "syncAndRenderHints_resume s =
     fold (fetchHints (activeDocument s)) (map fst (sourceFiles s)) s"

text \<open>
  The promise \<^verbatim>\<open>fetchHints\<close> returns, when the backend promise settles with \<open>outcome\<close>
  (\<open>Inl\<close>: rejected): \<^verbatim>\<open>.catch(() => null)\<close>, then the callback of \<^verbatim>\<open>.finally\<close>, which
  lets the value through.
\<close>

definition catch_null :: "backendError + 'a \<Rightarrow> backendError + 'a option" where
  "catch_null outcome = (case outcome of Inl e \<Rightarrow> Inr None | Inr v \<Rightarrow> Inr (Some v))"

definition finally_clear :: "fetchTask \<Rightarrow> state \<Rightarrow> state" where
  "finally_clear task s =
     (case map_of (sourceFiles s) (file_uri task) of
        None \<Rightarrow> s
      | Some file \<Rightarrow>
          if inlaysRequest file = Some (tokenSource task)
          then s\<lparr>sourceFiles :=
                   map_set (file_uri task) (file\<lparr>inlaysRequest := None\<rparr>) (sourceFiles s)\<rparr>
          else s)"

definition fetchHints_settle ::
  "fetchTask \<Rightarrow> backendError + inlayHint list \<Rightarrow> state
     \<Rightarrow> (backendError + inlayHint list option) \<times> state" where
  "fetchHints_settle task outcome s = (catch_null outcome, finally_clear task s)"

text \<open>The handler \<^verbatim>\<open>.then(async (hints) => ...)\<close> of \<^verbatim>\<open>syncAndRenderHints\<close>.\<close>

definition then_render :: "fetchTask \<Rightarrow> backendError + inlayHint list option \<Rightarrow> state \<Rightarrow> state" where
  "then_render task result s =
     (case result of
        Inl e \<Rightarrow> s
      | Inr None \<Rightarrow> s
      | Inr (Some hints) \<Rightarrow>
          (case current task of
             None \<Rightarrow> s
           | Some cur \<Rightarrow>
               if uri cur = file_uri task \<and> isRustDocument cur
               then s\<lparr>namespace :=
                        (namespace s)(uri cur := renderHints (config s) hints (namespace s (uri cur)))\<rparr>
               else s))"

text \<open>The backend promise of the fetch with token source \<open>t\<close> settles.\<close>

definition settle :: "nat \<Rightarrow> backendError + inlayHint list \<Rightarrow> state \<Rightarrow> state" where
  "settle t outcome s =
     (case find (\<lambda>task. tokenSource task = t) (fetches s) of
        None \<Rightarrow> s
      | Some task \<Rightarrow>
          (let s1 = s\<lparr>fetches := filter (\<lambda>task. tokenSource task \<noteq> t) (fetches s)\<rparr>;
               (result, s2) = fetchHints_settle task outcome s1
           in then_render task result s2))"

text \<open>The handlers of the three listeners.\<close>

definition onInsertLeave :: "textDocument option \<Rightarrow> state \<Rightarrow> state" where
  "onInsertLeave doc s =
     (case doc of
        None \<Rightarrow> s
      | Some d \<Rightarrow> if isRustDocument d then syncAndRenderHints (clear_buffer (uri d) s) else s)"

definition onDidChangeTextDocument :: "textDocument option \<Rightarrow> state \<Rightarrow> state" where
  "onDidChangeTextDocument doc s =
     (case doc of
        None \<Rightarrow> s
      | Some d \<Rightarrow>
          if isRustDocument d
          then (let s1 = clear_buffer (uri d) s
                in if insertMode s1 \<and> \<not> refreshOnInsertMode (config s1) then s1
                   else syncAndRenderHints s1)
          else s)"

text \<open>
  The handler of \<^verbatim>\<open>onDidOpenTextDocument\<close>: \<open>register\<close> is its first two statements;
  \<open>doc\<close> is what \<^verbatim>\<open>workspace.getDocument(e.uri)\<close> returns. When it returns nothing,
  \<^verbatim>\<open>doc.buffer\<close> raises a \<^verbatim>\<open>TypeError\<close> and the handler ends there, the document
  registered.
\<close>

definition register :: "textDocument \<Rightarrow> state \<Rightarrow> state" where
  "register e s =
     (let file = (case map_of (sourceFiles s) (uri e) of
                    Some f \<Rightarrow> f
                  | None \<Rightarrow> \<lparr>inlaysRequest = None, document = e\<rparr>)
      in s\<lparr>sourceFiles := map_set (uri e) file (sourceFiles s)\<rparr>)"

definition onDidOpenTextDocument ::
  "textDocument option \<Rightarrow> textDocument option \<Rightarrow> state \<Rightarrow> state" where
  "onDidOpenTextDocument e doc s =
     (case e of
        None \<Rightarrow> s
      | Some d \<Rightarrow>
          if isRustDocument d
          then (let s1 = register d s
                in case doc of
                     None \<Rightarrow> s1
                   | Some b \<Rightarrow> syncAndRenderHints (clear_buffer (uri b) s1))
          else s)"

definition dispose :: "state \<Rightarrow> state" where
  "dispose s =
     (let s1 = fold cancel_request (map snd (sourceFiles s)) s
      in s1\<lparr>listeners := filter (\<lambda>l. l \<notin> set (disposables s1)) (listeners s1)\<rparr>)"

text \<open>\<^verbatim>\<open>toggle\<close> up to its \<^verbatim>\<open>await\<close> (the else branch has none), and from it on.\<close>

definition toggle :: "state \<Rightarrow> state" where
  "toggle s =
     (if inlayHintsEnabled s
      then (let s1 = dispose (s\<lparr>inlayHintsEnabled := False\<rparr>)
            in s1\<lparr>togglesAwaiting := Suc (togglesAwaiting s1)\<rparr>)
      else syncAndRenderHints (s\<lparr>inlayHintsEnabled := True\<rparr>))"

definition toggle_resume :: "state \<Rightarrow> state" where
  "toggle_resume s =
     (case activeDocument s of None \<Rightarrow> s | Some doc \<Rightarrow> clear_buffer (uri doc) s)"

text \<open>
  The constructor, on the documents of the workspace, with the host's state and the
  namespace's content as it finds them.
\<close>

fun initial_files :: "textDocument list \<Rightarrow> state \<Rightarrow> state" where
  "initial_files [] s = s"
| "initial_files (doc # docs) s =
     initial_files docs
       (if isRustDocument doc
        then (let s1 = clear_buffer (uri doc) s
              in s1\<lparr>sourceFiles :=
                      map_set (uri doc) \<lparr>inlaysRequest = None, document = doc\<rparr> (sourceFiles s1)\<rparr>)
        else s)"

definition constructor ::
  "inlayHintsConfig \<Rightarrow> textDocument list \<Rightarrow> textDocument option \<Rightarrow> bool
     \<Rightarrow> (string \<Rightarrow> virtualText list) \<Rightarrow> state" where
  "constructor cfg documents active ins ns =
     (let s0 = \<lparr>sourceFiles = [], disposables = [], inlayHintsEnabled = True, config = cfg,
                listeners = [], activeDocument = active, insertMode = ins, namespace = ns,
                tokenSources = 0, cancelled = {}, fetches = [],
                syncsAwaiting = 0, togglesAwaiting = 0\<rparr>;
          s1 = initial_files documents s0;
          s2 = s1\<lparr>listeners := [InsertLeaveListener, ChangeListener, OpenListener],
                   disposables := [ChangeListener, OpenListener]\<rparr>
      in syncAndRenderHints s2)"

section \<open>Events\<close>

text \<open>
  Everything runs on one thread: between two suspension points a handler runs alone.
  An event is a listener firing (with the document the host resolves for it), a call
  of a public method, the host changing the active document or the mode, a suspended
  \<^verbatim>\<open>await workspace.document\<close> resuming, or the backend promise of a fetch settling.
  Cancellation is a request to the backend: a cancelled fetch settles as the backend
  decides.
\<close>

datatype event =
    InsertLeave "textDocument option"
  | DidChangeTextDocument "textDocument option"
  | DidOpenTextDocument "textDocument option" "textDocument option"
  | Toggle
  | SyncAndRenderHints
  | Dispose
  | ResumeSync
  | ResumeToggle
  | Settle nat "backendError + inlayHint list"
  | BufEnter "textDocument option"
  | SetInsertMode bool

fun step :: "event \<Rightarrow> state \<Rightarrow> state" where
  "step (InsertLeave doc) s =
     (if InsertLeaveListener \<in> set (listeners s) then onInsertLeave doc s else s)"
| "step (DidChangeTextDocument doc) s =
     (if ChangeListener \<in> set (listeners s) then onDidChangeTextDocument doc s else s)"
| "step (DidOpenTextDocument e doc) s =
     (if OpenListener \<in> set (listeners s) then onDidOpenTextDocument e doc s else s)"
| "step Toggle s = toggle s"
| "step SyncAndRenderHints s = syncAndRenderHints s"
| "step Dispose s = dispose s"
| "step ResumeSync s =
     (if syncsAwaiting s = 0 then s
      else syncAndRenderHints_resume (s\<lparr>syncsAwaiting := syncsAwaiting s - 1\<rparr>))"
| "step ResumeToggle s =
     (if togglesAwaiting s = 0 then s
      else toggle_resume (s\<lparr>togglesAwaiting := togglesAwaiting s - 1\<rparr>))"
| "step (Settle t outcome) s = settle t outcome s"
| "step (BufEnter d) s = s\<lparr>activeDocument := d\<rparr>"
| "step (SetInsertMode b) s = s\<lparr>insertMode := b\<rparr>"

definition run :: "event list \<Rightarrow> state \<Rightarrow> state" where
  "run evs s = fold step evs s"

section \<open>Invariant and example states\<close>

text \<open>
  What every state the updater reaches satisfies: the keys of \<^verbatim>\<open>sourceFiles\<close> are
  unique, every token source recorded in a file or carried by a fetch in flight has
  been allocated, no two fetches in flight carry the same token source, and
  \<^verbatim>\<open>disposables\<close> holds the two listeners the constructor pushed.
\<close>

definition invar :: "state \<Rightarrow> bool" where
  "invar s \<longleftrightarrow>
     distinct (map fst (sourceFiles s)) \<and>
     (\<forall>file \<in> snd ` set (sourceFiles s).
        case inlaysRequest file of None \<Rightarrow> True | Some t \<Rightarrow> t < tokenSources s) \<and>
     (\<forall>task \<in> set (fetches s). tokenSource task < tokenSources s) \<and>
     distinct (map tokenSource (fetches s)) \<and>
     disposables s = [ChangeListener, OpenListener]"

text \<open>
  A fetch in flight is superseded when its token source is not the one recorded for
  its document: \<^verbatim>\<open>file.inlaysRequest !== tokenSource\<close>.
\<close>

definition superseded :: "state \<Rightarrow> fetchTask \<Rightarrow> bool" where
  "superseded s task \<longleftrightarrow>
     task \<in> set (fetches s) \<and> pendingRequest s (file_uri task) \<noteq> Some (tokenSource task)"

text \<open>
  Two Rust documents, and the updater constructed on them with \<open>a.rs\<close> displayed, both
  hint kinds enabled and nothing painted yet.
\<close>

definition a_rs :: textDocument where
  "a_rs = \<lparr>uri = ''a.rs'', isRustDocument = True\<rparr>"

definition b_rs :: textDocument where
  "b_rs = \<lparr>uri = ''b.rs'', isRustDocument = True\<rparr>"

definition example_start :: state where
  "example_start =
     constructor (scenario_config True) [a_rs, b_rs] (Some a_rs) False (\<lambda>u. [])"

text \<open>
  A run in which a fetch is superseded: the first pass issues fetch 0 for \<open>a.rs\<close> and
  fetch 1 for \<open>b.rs\<close>; a second pass (a call of \<^verbatim>\<open>syncAndRenderHints\<close>, as the
  configuration listener makes) cancels both and issues fetches 2 and 3. Then fetch 2
  resolves with the hint \<open>hint_B\<close> while fetch 0 is still in flight.
\<close>

definition hint_A :: inlayHint where
  "hint_A = hint_at TypeHint ''A'' 1"

definition hint_B :: inlayHint where
  "hint_B = hint_at TypeHint ''B'' 2"

definition task_A :: fetchTask where
  "task_A = \<lparr>tokenSource = 0, file_uri = ''a.rs'', current = Some a_rs\<rparr>"

definition example_superseded :: state where
  "example_superseded = run [ResumeSync, SyncAndRenderHints, ResumeSync] example_start"

definition example_B_resolved :: state where
  "example_B_resolved = run [Settle 2 (Inr [hint_B])] example_superseded"

text \<open>
  A run in which the displayed document changes while a fetch is in flight: the first
  pass captures \<open>a.rs\<close> as \<^verbatim>\<open>current\<close> and issues fetch 0 for \<open>a.rs\<close>; then the user
  moves to \<open>b.rs\<close>.
\<close>

definition example_switched :: state where
  "example_switched = run [ResumeSync, BufEnter (Some b_rs)] example_start"

text \<open>
  A run that ends disabled: the first pass paints \<open>hint_A\<close> on \<open>a.rs\<close>, the user moves
  to \<open>b.rs\<close>, and \<^verbatim>\<open>toggle\<close> runs to its end.
\<close>

definition example_hinted :: state where
  "example_hinted = run [ResumeSync, Settle 0 (Inr [hint_A]), BufEnter (Some b_rs)] example_start"

definition example_disabled :: state where
  "example_disabled = run [Toggle, ResumeToggle] example_hinted"

text \<open>A run that toggles off and on again after the first pass.\<close>

definition example_toggled_twice :: state where
  "example_toggled_twice = run [ResumeSync, Toggle, ResumeToggle, Toggle] example_start"

text \<open>
  A run in which a second pass starts, without an event that clears a buffer, while
  \<open>a.rs\<close> shows \<open>hint_A\<close>: fetch 2 is the second fetch of \<open>a.rs\<close>.
\<close>

definition example_second_pass :: state where
  "example_second_pass =
     run [ResumeSync, Settle 0 (Inr [hint_A]), SyncAndRenderHints, ResumeSync] example_start"

text \<open>A state in insert mode in which \<open>a.rs\<close> shows \<open>hint_A\<close>.\<close>

definition example_insert_mode :: state where
  "example_insert_mode =
     run [ResumeSync, Settle 0 (Inr [hint_A]), SetInsertMode True] example_start"

section \<open>Lemmas\<close>

subsection \<open>Rendering\<close>

lemma bucket_type:
  "dec_type (bucket hints d) = dec_type d @ filter (\<lambda>h. kind h = TypeHint) hints"
  by (induction hints arbitrary: d) (auto split: kind.splits)

lemma bucket_chaining:
  "dec_chaining (bucket hints d) = dec_chaining d @ filter (\<lambda>h. kind h = ChainingHint) hints"
  by (induction hints arbitrary: d) (auto split: kind.splits)

lemma draw_map: "draw sep hl items buf = buf @ map (overlay_of sep hl) items"
  by (induction items arbitrary: buf) (simp_all add: setVirtualText_def overlay_of_def)

subsection \<open>The map of source files\<close>

lemma map_of_map_set: "map_of (map_set k v m) = (map_of m)(k \<mapsto> v)"
  by (induction m) (auto simp: fun_eq_iff)

lemma set_map_set: "set (map_set k v m) \<subseteq> insert (k, v) (set m)"
  by (induction m) (auto split: if_splits)

lemma keys_map_set:
  "map fst (map_set k v m) = (if k \<in> fst ` set m then map fst m else map fst m @ [k])"
  by (induction m) (auto simp: image_iff split: if_splits)

lemma distinct_map_set: "distinct (map fst m) \<Longrightarrow> distinct (map fst (map_set k v m))"
  by (simp add: keys_map_set)

lemma map_set_same: "map_of m k = Some v \<Longrightarrow> map_set k v m = m"
  by (induction m) (auto split: if_splits)

lemma keys_map_set_tracked: "map_of m k = Some v \<Longrightarrow> map fst (map_set k v' m) = map fst m"
  by (induction m) (auto split: if_splits)

subsection \<open>Frames\<close>

lemma cancel_request_frame [simp]:
  "sourceFiles (cancel_request f s) = sourceFiles s"
  "disposables (cancel_request f s) = disposables s"
  "inlayHintsEnabled (cancel_request f s) = inlayHintsEnabled s"
  "config (cancel_request f s) = config s"
  "listeners (cancel_request f s) = listeners s"
  "activeDocument (cancel_request f s) = activeDocument s"
  "insertMode (cancel_request f s) = insertMode s"
  "namespace (cancel_request f s) = namespace s"
  "tokenSources (cancel_request f s) = tokenSources s"
  "fetches (cancel_request f s) = fetches s"
  "syncsAwaiting (cancel_request f s) = syncsAwaiting s"
  "togglesAwaiting (cancel_request f s) = togglesAwaiting s"
  by (simp_all add: cancel_request_def split: option.splits)

lemma pendingRequest_cancel_request [simp]:
  "pendingRequest (cancel_request f s) = pendingRequest s"
  by (simp add: pendingRequest_def fun_eq_iff)

lemma invar_iff:
  "invar s \<longleftrightarrow>
     distinct (map fst (sourceFiles s)) \<and>
     (\<forall>file \<in> snd ` set (sourceFiles s). \<forall>t. inlaysRequest file = Some t \<longrightarrow> t < tokenSources s) \<and>
     (\<forall>task \<in> set (fetches s). tokenSource task < tokenSources s) \<and>
     distinct (map tokenSource (fetches s)) \<and>
     disposables s = [ChangeListener, OpenListener]"
  by (auto simp: invar_def split: option.splits)

lemma invar_frame:
  "sourceFiles s' = sourceFiles s \<Longrightarrow> tokenSources s' = tokenSources s \<Longrightarrow>
   fetches s' = fetches s \<Longrightarrow> disposables s' = disposables s \<Longrightarrow> invar s' = invar s"
  by (simp add: invar_iff)

lemma fold_cancel_request_frame [simp]:
  "sourceFiles (fold cancel_request fs s) = sourceFiles s"
  "disposables (fold cancel_request fs s) = disposables s"
  "inlayHintsEnabled (fold cancel_request fs s) = inlayHintsEnabled s"
  "config (fold cancel_request fs s) = config s"
  "listeners (fold cancel_request fs s) = listeners s"
  "activeDocument (fold cancel_request fs s) = activeDocument s"
  "insertMode (fold cancel_request fs s) = insertMode s"
  "namespace (fold cancel_request fs s) = namespace s"
  "tokenSources (fold cancel_request fs s) = tokenSources s"
  "fetches (fold cancel_request fs s) = fetches s"
  "syncsAwaiting (fold cancel_request fs s) = syncsAwaiting s"
  "togglesAwaiting (fold cancel_request fs s) = togglesAwaiting s"
  by (induction fs arbitrary: s; simp)+

lemma cancelled_fold_cancel_request:
  "cancelled (fold cancel_request fs s) =
     cancelled s \<union> {t. \<exists>f \<in> set fs. inlaysRequest f = Some t}"
  by (induction fs arbitrary: s) (auto simp: cancel_request_def split: option.splits)

subsection \<open>fetchHints\<close>

lemma fetchHints_untracked: "map_of (sourceFiles s) u = None \<Longrightarrow> fetchHints cur u s = s"
  by (simp add: fetchHints_def)

lemma fetchHints_tracked:
  assumes "map_of (sourceFiles s) u = Some file"
  shows "tokenSources (fetchHints cur u s) = Suc (tokenSources s)"
    and "fetches (fetchHints cur u s) =
           fetches s @ [\<lparr>tokenSource = tokenSources s, file_uri = u, current = cur\<rparr>]"
    and "sourceFiles (fetchHints cur u s) =
           map_set u (file\<lparr>inlaysRequest := Some (tokenSources s)\<rparr>) (sourceFiles s)"
    and "cancelled (fetchHints cur u s) =
           (case inlaysRequest file of None \<Rightarrow> cancelled s | Some t \<Rightarrow> insert t (cancelled s))"
  using assms by (simp_all add: fetchHints_def Let_def cancel_request_def split: option.splits)

lemma fetchHints_frame [simp]:
  "disposables (fetchHints cur u s) = disposables s"
  "inlayHintsEnabled (fetchHints cur u s) = inlayHintsEnabled s"
  "config (fetchHints cur u s) = config s"
  "listeners (fetchHints cur u s) = listeners s"
  "activeDocument (fetchHints cur u s) = activeDocument s"
  "insertMode (fetchHints cur u s) = insertMode s"
  "namespace (fetchHints cur u s) = namespace s"
  "syncsAwaiting (fetchHints cur u s) = syncsAwaiting s"
  "togglesAwaiting (fetchHints cur u s) = togglesAwaiting s"
  by (simp_all add: fetchHints_def Let_def split: option.splits)

lemma keys_fetchHints [simp]:
  "map fst (sourceFiles (fetchHints cur u s)) = map fst (sourceFiles s)"
  by (cases "map_of (sourceFiles s) u")
     (simp_all add: fetchHints_untracked fetchHints_tracked keys_map_set_tracked)

lemma pendingRequest_fetchHints:
  "pendingRequest (fetchHints cur u s) u' =
     (if u' = u \<and> map_of (sourceFiles s) u \<noteq> None then Some (tokenSources s)
      else pendingRequest s u')"
  by (cases "map_of (sourceFiles s) u")
     (auto simp: fetchHints_untracked fetchHints_tracked pendingRequest_def map_of_map_set)

lemma invar_fetchHints: "invar s \<Longrightarrow> invar (fetchHints cur u s)"
proof (cases "map_of (sourceFiles s) u")
  case None
  assume "invar s"
  with None show ?thesis by (simp add: fetchHints_untracked)
next
  case (Some fl)
  assume inv: "invar s"
  note eqs = fetchHints_tracked [OF Some, of cur]
  have keys: "distinct (map fst (sourceFiles (fetchHints cur u s)))"
    using inv by (simp add: invar_iff)
  have files: "\<forall>f \<in> snd ` set (sourceFiles (fetchHints cur u s)).
      \<forall>t. inlaysRequest f = Some t \<longrightarrow> t < tokenSources (fetchHints cur u s)"
  proof (intro ballI allI impI)
    fix f t
    assume f: "f \<in> snd ` set (sourceFiles (fetchHints cur u s))" and t: "inlaysRequest f = Some t"
    from f obtain k where "(k, f) \<in> set (map_set u (fl\<lparr>inlaysRequest := Some (tokenSources s)\<rparr>) (sourceFiles s))"
      by (auto simp: eqs)
    then have "f = fl\<lparr>inlaysRequest := Some (tokenSources s)\<rparr> \<or> f \<in> snd ` set (sourceFiles s)"
      using set_map_set [of u _ "sourceFiles s"] by force
    then show "t < tokenSources (fetchHints cur u s)"
    proof
      assume "f = fl\<lparr>inlaysRequest := Some (tokenSources s)\<rparr>"
      with t show ?thesis by (simp add: eqs)
    next
      assume "f \<in> snd ` set (sourceFiles s)"
      with inv t have "t < tokenSources s" by (auto simp: invar_iff)
      then show ?thesis by (simp add: eqs)
    qed
  qed
  have tasks: "\<forall>task \<in> set (fetches (fetchHints cur u s)).
      tokenSource task < tokenSources (fetchHints cur u s)"
    using inv by (auto simp: eqs invar_iff less_Suc_eq)
  have toks: "distinct (map tokenSource (fetches (fetchHints cur u s)))"
    using inv by (auto simp: eqs invar_iff)
  from keys files tasks toks inv show ?thesis
    by (simp add: invar_iff)
qed

lemma invar_fold_fetchHints: "invar s \<Longrightarrow> invar (fold (fetchHints cur) us s)"
  by (induction us arbitrary: s) (simp_all add: invar_fetchHints)

subsection \<open>Settling a fetch\<close>

lemma finally_clear_frame [simp]:
  "disposables (finally_clear task s) = disposables s"
  "inlayHintsEnabled (finally_clear task s) = inlayHintsEnabled s"
  "config (finally_clear task s) = config s"
  "listeners (finally_clear task s) = listeners s"
  "activeDocument (finally_clear task s) = activeDocument s"
  "insertMode (finally_clear task s) = insertMode s"
  "namespace (finally_clear task s) = namespace s"
  "tokenSources (finally_clear task s) = tokenSources s"
  "cancelled (finally_clear task s) = cancelled s"
  "fetches (finally_clear task s) = fetches s"
  "syncsAwaiting (finally_clear task s) = syncsAwaiting s"
  "togglesAwaiting (finally_clear task s) = togglesAwaiting s"
  by (simp_all add: finally_clear_def split: option.splits)

lemma finally_clear_stale:
  "pendingRequest s (file_uri task) \<noteq> Some (tokenSource task) \<Longrightarrow> finally_clear task s = s"
  by (simp add: finally_clear_def pendingRequest_def split: option.splits)

lemma keys_finally_clear [simp]:
  "map fst (sourceFiles (finally_clear task s)) = map fst (sourceFiles s)"
  by (simp add: finally_clear_def keys_map_set_tracked split: option.splits)

lemma pendingRequest_finally_clear:
  "pendingRequest (finally_clear task s) u =
     (if u = file_uri task \<and> pendingRequest s u = Some (tokenSource task) then None
      else pendingRequest s u)"
  by (auto simp: finally_clear_def pendingRequest_def map_of_map_set split: option.splits)

lemma files_finally_clear:
  "f \<in> snd ` set (sourceFiles (finally_clear task s)) \<Longrightarrow> inlaysRequest f = Some t \<Longrightarrow>
   f \<in> snd ` set (sourceFiles s)"
proof -
  assume f: "f \<in> snd ` set (sourceFiles (finally_clear task s))" and t: "inlaysRequest f = Some t"
  show ?thesis
  proof (cases "map_of (sourceFiles s) (file_uri task)")
    case None
    with f show ?thesis by (simp add: finally_clear_def)
  next
    case (Some fl)
    show ?thesis
    proof (cases "inlaysRequest fl = Some (tokenSource task)")
      case False
      with Some f show ?thesis by (simp add: finally_clear_def)
    next
      case True
      with Some f obtain k where
        "(k, f) \<in> set (map_set (file_uri task) (fl\<lparr>inlaysRequest := None\<rparr>) (sourceFiles s))"
        by (auto simp: finally_clear_def)
      then have "f = fl\<lparr>inlaysRequest := None\<rparr> \<or> f \<in> snd ` set (sourceFiles s)"
        using set_map_set [of "file_uri task" _ "sourceFiles s"] by force
      with t show ?thesis by auto
    qed
  qed
qed

lemma then_render_frame [simp]:
  "sourceFiles (then_render task r s) = sourceFiles s"
  "disposables (then_render task r s) = disposables s"
  "inlayHintsEnabled (then_render task r s) = inlayHintsEnabled s"
  "config (then_render task r s) = config s"
  "listeners (then_render task r s) = listeners s"
  "activeDocument (then_render task r s) = activeDocument s"
  "insertMode (then_render task r s) = insertMode s"
  "tokenSources (then_render task r s) = tokenSources s"
  "cancelled (then_render task r s) = cancelled s"
  "fetches (then_render task r s) = fetches s"
  "syncsAwaiting (then_render task r s) = syncsAwaiting s"
  "togglesAwaiting (then_render task r s) = togglesAwaiting s"
  by (simp_all add: then_render_def split: option.splits sum.splits)

lemma pendingRequest_then_render [simp]:
  "pendingRequest (then_render task r s) = pendingRequest s"
  by (simp add: pendingRequest_def fun_eq_iff)

lemma settle_unknown:
  "find (\<lambda>task. tokenSource task = t) (fetches s) = None \<Longrightarrow> settle t outcome s = s"
  by (simp add: settle_def)

lemma settle_known:
  "find (\<lambda>task. tokenSource task = t) (fetches s) = Some task \<Longrightarrow>
   settle t outcome s =
     then_render task (catch_null outcome)
       (finally_clear task (s\<lparr>fetches := filter (\<lambda>task. tokenSource task \<noteq> t) (fetches s)\<rparr>))"
  by (simp add: settle_def fetchHints_settle_def)

lemma settle_frame [simp]:
  "disposables (settle t outcome s) = disposables s"
  "inlayHintsEnabled (settle t outcome s) = inlayHintsEnabled s"
  "config (settle t outcome s) = config s"
  "listeners (settle t outcome s) = listeners s"
  "activeDocument (settle t outcome s) = activeDocument s"
  "insertMode (settle t outcome s) = insertMode s"
  "tokenSources (settle t outcome s) = tokenSources s"
  "cancelled (settle t outcome s) = cancelled s"
  "syncsAwaiting (settle t outcome s) = syncsAwaiting s"
  "togglesAwaiting (settle t outcome s) = togglesAwaiting s"
  "fetches (settle t outcome s) = filter (\<lambda>task. tokenSource task \<noteq> t) (fetches s)"
  "map fst (sourceFiles (settle t outcome s)) = map fst (sourceFiles s)"
proof -
  have none: "find (\<lambda>task. tokenSource task = t) (fetches s) = None \<Longrightarrow>
      filter (\<lambda>task. tokenSource task \<noteq> t) (fetches s) = fetches s"
    by (simp add: find_None_iff filter_id_conv)
  show "disposables (settle t outcome s) = disposables s"
    "inlayHintsEnabled (settle t outcome s) = inlayHintsEnabled s"
    "config (settle t outcome s) = config s"
    "listeners (settle t outcome s) = listeners s"
    "activeDocument (settle t outcome s) = activeDocument s"
    "insertMode (settle t outcome s) = insertMode s"
    "tokenSources (settle t outcome s) = tokenSources s"
    "cancelled (settle t outcome s) = cancelled s"
    "syncsAwaiting (settle t outcome s) = syncsAwaiting s"
    "togglesAwaiting (settle t outcome s) = togglesAwaiting s"
    "fetches (settle t outcome s) = filter (\<lambda>task. tokenSource task \<noteq> t) (fetches s)"
    "map fst (sourceFiles (settle t outcome s)) = map fst (sourceFiles s)"
    by (cases "find (\<lambda>task. tokenSource task = t) (fetches s)";
        simp add: settle_unknown settle_known none)+
qed

lemma invar_settle: "invar s \<Longrightarrow> invar (settle t outcome s)"
proof (cases "find (\<lambda>task. tokenSource task = t) (fetches s)")
  case None
  assume "invar s"
  with None show ?thesis by (simp add: settle_unknown)
next
  case (Some task)
  assume inv: "invar s"
  let ?s1 = "s\<lparr>fetches := filter (\<lambda>task. tokenSource task \<noteq> t) (fetches s)\<rparr>"
  have files: "\<forall>f \<in> snd ` set (sourceFiles (settle t outcome s)).
      \<forall>t'. inlaysRequest f = Some t' \<longrightarrow> t' < tokenSources (settle t outcome s)"
  proof (intro ballI allI impI)
    fix f t'
    assume "f \<in> snd ` set (sourceFiles (settle t outcome s))" and t': "inlaysRequest f = Some t'"
    then have "f \<in> snd ` set (sourceFiles (finally_clear task ?s1))"
      by (simp add: settle_known [OF Some])
    from files_finally_clear [OF this t'] have "f \<in> snd ` set (sourceFiles s)" by simp
    with inv t' show "t' < tokenSources (settle t outcome s)" by (auto simp: invar_iff)
  qed
  from inv files show ?thesis
    by (auto simp: invar_iff distinct_map_filter)
qed

subsection \<open>The handlers\<close>

lemma clear_buffer_frame [simp]:
  "sourceFiles (clear_buffer u s) = sourceFiles s"
  "disposables (clear_buffer u s) = disposables s"
  "inlayHintsEnabled (clear_buffer u s) = inlayHintsEnabled s"
  "config (clear_buffer u s) = config s"
  "listeners (clear_buffer u s) = listeners s"
  "activeDocument (clear_buffer u s) = activeDocument s"
  "insertMode (clear_buffer u s) = insertMode s"
  "tokenSources (clear_buffer u s) = tokenSources s"
  "cancelled (clear_buffer u s) = cancelled s"
  "fetches (clear_buffer u s) = fetches s"
  "syncsAwaiting (clear_buffer u s) = syncsAwaiting s"
  "togglesAwaiting (clear_buffer u s) = togglesAwaiting s"
  "namespace (clear_buffer u s) = (namespace s)(u := [])"
  by (simp_all add: clear_buffer_def clearNamespace_def)

lemma syncAndRenderHints_frame [simp]:
  "sourceFiles (syncAndRenderHints s) = sourceFiles s"
  "disposables (syncAndRenderHints s) = disposables s"
  "inlayHintsEnabled (syncAndRenderHints s) = inlayHintsEnabled s"
  "config (syncAndRenderHints s) = config s"
  "listeners (syncAndRenderHints s) = listeners s"
  "activeDocument (syncAndRenderHints s) = activeDocument s"
  "insertMode (syncAndRenderHints s) = insertMode s"
  "tokenSources (syncAndRenderHints s) = tokenSources s"
  "cancelled (syncAndRenderHints s) = cancelled s"
  "fetches (syncAndRenderHints s) = fetches s"
  "togglesAwaiting (syncAndRenderHints s) = togglesAwaiting s"
  "namespace (syncAndRenderHints s) = namespace s"
  by (simp_all add: syncAndRenderHints_def)

lemma register_frame [simp]:
  "disposables (register e s) = disposables s"
  "inlayHintsEnabled (register e s) = inlayHintsEnabled s"
  "config (register e s) = config s"
  "listeners (register e s) = listeners s"
  "activeDocument (register e s) = activeDocument s"
  "insertMode (register e s) = insertMode s"
  "tokenSources (register e s) = tokenSources s"
  "cancelled (register e s) = cancelled s"
  "fetches (register e s) = fetches s"
  "syncsAwaiting (register e s) = syncsAwaiting s"
  "togglesAwaiting (register e s) = togglesAwaiting s"
  "namespace (register e s) = namespace s"
  by (simp_all add: register_def Let_def)

lemma register_tracked: "map_of (sourceFiles s) (uri e) = Some f \<Longrightarrow> register e s = s"
  by (simp add: register_def map_set_same)

lemma register_untracked:
  "map_of (sourceFiles s) (uri e) = None \<Longrightarrow>
   sourceFiles (register e s) = sourceFiles s @ [(uri e, \<lparr>inlaysRequest = None, document = e\<rparr>)]"
proof -
  have "map_of m k = None \<Longrightarrow> map_set k v m = m @ [(k, v)]" for m :: "(string \<times> rustSourceFile) list" and k v
    by (induction m) (auto split: if_splits)
  then show "map_of (sourceFiles s) (uri e) = None \<Longrightarrow> ?thesis"
    by (simp add: register_def)
qed

lemma pendingRequest_register [simp]: "pendingRequest (register e s) = pendingRequest s"
proof (cases "map_of (sourceFiles s) (uri e)")
  case None
  then show ?thesis
    by (auto simp: fun_eq_iff pendingRequest_def register_untracked split: option.splits if_splits)
next
  case (Some f)
  then show ?thesis by (simp add: register_tracked)
qed

lemma invar_register: "invar s \<Longrightarrow> invar (register e s)"
proof (cases "map_of (sourceFiles s) (uri e)")
  case None
  assume "invar s"
  moreover from None have "uri e \<notin> fst ` set (sourceFiles s)"
    by (simp add: map_of_eq_None_iff)
  ultimately show ?thesis
    using None by (auto simp: invar_iff register_untracked)
next
  case (Some f)
  assume "invar s"
  with Some show ?thesis by (simp add: register_tracked)
qed

lemma dispose_frame [simp]:
  "sourceFiles (dispose s) = sourceFiles s"
  "disposables (dispose s) = disposables s"
  "inlayHintsEnabled (dispose s) = inlayHintsEnabled s"
  "config (dispose s) = config s"
  "activeDocument (dispose s) = activeDocument s"
  "insertMode (dispose s) = insertMode s"
  "tokenSources (dispose s) = tokenSources s"
  "fetches (dispose s) = fetches s"
  "syncsAwaiting (dispose s) = syncsAwaiting s"
  "togglesAwaiting (dispose s) = togglesAwaiting s"
  "namespace (dispose s) = namespace s"
  "listeners (dispose s) = filter (\<lambda>l. l \<notin> set (disposables s)) (listeners s)"
  by (simp_all add: dispose_def Let_def)

lemma toggle_frame [simp]:
  "sourceFiles (toggle s) = sourceFiles s"
  "disposables (toggle s) = disposables s"
  "config (toggle s) = config s"
  "activeDocument (toggle s) = activeDocument s"
  "insertMode (toggle s) = insertMode s"
  "tokenSources (toggle s) = tokenSources s"
  "fetches (toggle s) = fetches s"
  "namespace (toggle s) = namespace s"
  by (simp_all add: toggle_def Let_def)

lemma toggle_resume_frame [simp]:
  "sourceFiles (toggle_resume s) = sourceFiles s"
  "disposables (toggle_resume s) = disposables s"
  "inlayHintsEnabled (toggle_resume s) = inlayHintsEnabled s"
  "config (toggle_resume s) = config s"
  "listeners (toggle_resume s) = listeners s"
  "activeDocument (toggle_resume s) = activeDocument s"
  "insertMode (toggle_resume s) = insertMode s"
  "tokenSources (toggle_resume s) = tokenSources s"
  "cancelled (toggle_resume s) = cancelled s"
  "fetches (toggle_resume s) = fetches s"
  "syncsAwaiting (toggle_resume s) = syncsAwaiting s"
  "togglesAwaiting (toggle_resume s) = togglesAwaiting s"
  by (simp_all add: toggle_resume_def split: option.splits)

subsection \<open>The invariant\<close>

lemma invar_syncAndRenderHints [simp]: "invar (syncAndRenderHints s) = invar s"
  by (rule invar_frame) simp_all

lemma invar_clear_buffer [simp]: "invar (clear_buffer u s) = invar s"
  by (rule invar_frame) simp_all

lemma invar_dispose [simp]: "invar (dispose s) = invar s"
  by (rule invar_frame) simp_all

lemma invar_toggle [simp]: "invar (toggle s) = invar s"
  by (rule invar_frame) simp_all

lemma invar_toggle_resume [simp]: "invar (toggle_resume s) = invar s"
  by (rule invar_frame) simp_all

lemma invar_syncAndRenderHints_resume:
  "invar s \<Longrightarrow> invar (syncAndRenderHints_resume s)"
  by (simp add: syncAndRenderHints_resume_def invar_fold_fetchHints)

lemma invar_onDidOpenTextDocument: "invar s \<Longrightarrow> invar (onDidOpenTextDocument e doc s)"
  by (simp add: onDidOpenTextDocument_def Let_def invar_register split: option.splits)

lemma invar_step: "invar s \<Longrightarrow> invar (step ev s)"
proof (cases ev)
  case (InsertLeave doc)
  assume "invar s"
  moreover have "invar (onInsertLeave doc s) = invar s"
    by (simp add: onInsertLeave_def split: option.splits)
  ultimately show ?thesis using InsertLeave by simp
next
  case (DidChangeTextDocument doc)
  assume "invar s"
  moreover have "invar (onDidChangeTextDocument doc s) = invar s"
    by (simp add: onDidChangeTextDocument_def Let_def split: option.splits)
  ultimately show ?thesis using DidChangeTextDocument by simp
next
  case (DidOpenTextDocument e doc)
  assume "invar s"
  with DidOpenTextDocument show ?thesis by (simp add: invar_onDidOpenTextDocument)
next
  case Toggle
  assume "invar s"
  with Toggle show ?thesis by simp
next
  case SyncAndRenderHints
  assume "invar s"
  with SyncAndRenderHints show ?thesis by simp
next
  case Dispose
  assume "invar s"
  with Dispose show ?thesis by simp
next
  case ResumeSync
  assume "invar s"
  then have "invar (s\<lparr>syncsAwaiting := syncsAwaiting s - 1\<rparr>)"
    by (simp add: invar_iff)
  with \<open>invar s\<close> ResumeSync show ?thesis
    by (simp add: invar_syncAndRenderHints_resume)
next
  case ResumeToggle
  assume "invar s"
  then have "invar (s\<lparr>togglesAwaiting := togglesAwaiting s - 1\<rparr>)"
    by (simp add: invar_iff)
  with \<open>invar s\<close> ResumeToggle show ?thesis by simp
next
  case (Settle t outcome)
  assume "invar s"
  with Settle show ?thesis by (simp add: invar_settle)
next
  case (BufEnter d)
  assume "invar s"
  with BufEnter show ?thesis by (simp add: invar_iff)
next
  case (SetInsertMode b)
  assume "invar s"
  with SetInsertMode show ?thesis by (simp add: invar_iff)
qed

lemma invar_run: "invar s \<Longrightarrow> invar (run evs s)"
  unfolding run_def by (induction evs arbitrary: s) (simp_all add: invar_step)

lemma initial_files_frame [simp]:
  "disposables (initial_files docs s) = disposables s"
  "tokenSources (initial_files docs s) = tokenSources s"
  "fetches (initial_files docs s) = fetches s"
  by (induction docs arbitrary: s; simp add: Let_def)+

lemma initial_files_keys:
  "distinct (map fst (sourceFiles s)) \<Longrightarrow> distinct (map fst (sourceFiles (initial_files docs s)))"
proof (induction docs arbitrary: s)
  case Nil
  then show ?case by simp
next
  case (Cons doc docs)
  show ?case
  proof (cases "isRustDocument doc")
    case False
    with Cons show ?thesis by simp
  next
    case True
    let ?f = "\<lparr>inlaysRequest = None, document = doc\<rparr>"
    let ?s2 = "(clear_buffer (uri doc) s)\<lparr>sourceFiles := map_set (uri doc) ?f (sourceFiles s)\<rparr>"
    from Cons.prems have "distinct (map fst (sourceFiles ?s2))"
      by (simp add: distinct_map_set)
    then have "distinct (map fst (sourceFiles (initial_files docs ?s2)))"
      by (rule Cons.IH)
    moreover have "initial_files (doc # docs) s = initial_files docs ?s2"
      using True by (simp add: Let_def)
    ultimately show ?thesis by (simp only:)
  qed
qed

lemma map_set_all:
  "P v \<Longrightarrow> \<forall>x \<in> snd ` set m. P x \<Longrightarrow> \<forall>x \<in> snd ` set (map_set k v m). P x"
proof (intro ballI)
  fix x
  assume v: "P v" and m: "\<forall>x \<in> snd ` set m. P x" and "x \<in> snd ` set (map_set k v m)"
  then obtain j where "(j, x) \<in> set (map_set k v m)" by auto
  with set_map_set [of k v m] have "(j, x) = (k, v) \<or> (j, x) \<in> set m" by blast
  then show "P x"
  proof
    assume "(j, x) = (k, v)"
    with v show ?thesis by simp
  next
    assume "(j, x) \<in> set m"
    then have "x \<in> snd ` set m" by (rule image_eqI [rotated]) simp
    with m show ?thesis by blast
  qed
qed

lemma initial_files_requests:
  "\<forall>f \<in> snd ` set (sourceFiles s). inlaysRequest f = None \<Longrightarrow>
   \<forall>f \<in> snd ` set (sourceFiles (initial_files docs s)). inlaysRequest f = None"
proof (induction docs arbitrary: s)
  case Nil
  then show ?case by simp
next
  case (Cons doc docs)
  show ?case
  proof (cases "isRustDocument doc")
    case False
    from Cons.prems have "\<forall>f \<in> snd ` set (sourceFiles (initial_files docs s)). inlaysRequest f = None"
      by (rule Cons.IH)
    moreover have "initial_files (doc # docs) s = initial_files docs s"
      using False by simp
    ultimately show ?thesis by (simp only:)
  next
    case True
    let ?f = "\<lparr>inlaysRequest = None, document = doc\<rparr>"
    let ?s2 = "(clear_buffer (uri doc) s)\<lparr>sourceFiles := map_set (uri doc) ?f (sourceFiles s)\<rparr>"
    have "inlaysRequest ?f = None" by simp
    then have "\<forall>f \<in> snd ` set (map_set (uri doc) ?f (sourceFiles s)). inlaysRequest f = None"
      using Cons.prems by (rule map_set_all [where P = "\<lambda>f. inlaysRequest f = None"])
    then have "\<forall>f \<in> snd ` set (sourceFiles ?s2). inlaysRequest f = None"
      by simp
    then have "\<forall>f \<in> snd ` set (sourceFiles (initial_files docs ?s2)). inlaysRequest f = None"
      by (rule Cons.IH)
    moreover have "initial_files (doc # docs) s = initial_files docs ?s2"
      using True by (simp add: Let_def)
    ultimately show ?thesis by (simp only:)
  qed
qed

lemma invar_constructor: "invar (constructor cfg docs active ins ns)"
proof -
  let ?s0 = "\<lparr>sourceFiles = [], disposables = [], inlayHintsEnabled = True, config = cfg,
      listeners = [], activeDocument = active, insertMode = ins, namespace = ns,
      tokenSources = 0, cancelled = {}, fetches = [],
      syncsAwaiting = 0, togglesAwaiting = 0\<rparr>"
  have "distinct (map fst (sourceFiles (initial_files docs ?s0)))"
    by (rule initial_files_keys) simp
  moreover have "\<forall>f \<in> snd ` set (sourceFiles (initial_files docs ?s0)). inlaysRequest f = None"
    by (rule initial_files_requests) simp
  ultimately show ?thesis
    by (simp add: constructor_def Let_def invar_iff)
qed

subsection \<open>Token sources are fresh\<close>

lemma tokenSources_fold_fetchHints:
  "tokenSources s \<le> tokenSources (fold (fetchHints cur) us s)"
proof (induction us arbitrary: s)
  case Nil
  show ?case by simp
next
  case (Cons u us)
  have "tokenSources s \<le> tokenSources (fetchHints cur u s)"
    by (cases "map_of (sourceFiles s) u") (simp_all add: fetchHints_untracked fetchHints_tracked)
  with Cons [of "fetchHints cur u s"] show ?case by simp
qed

lemma fetches_fetchHints_old:
  "task \<in> set (fetches (fetchHints cur u s)) \<Longrightarrow> tokenSource task < tokenSources s \<Longrightarrow>
   task \<in> set (fetches s)"
  by (cases "map_of (sourceFiles s) u") (auto simp: fetchHints_untracked fetchHints_tracked)

lemma fetches_fold_fetchHints_old:
  "task \<in> set (fetches (fold (fetchHints cur) us s)) \<Longrightarrow> tokenSource task < tokenSources s \<Longrightarrow>
   task \<in> set (fetches s)"
proof (induction us arbitrary: s)
  case Nil
  then show ?case by simp
next
  case (Cons u us)
  have le: "tokenSources s \<le> tokenSources (fetchHints cur u s)"
    by (cases "map_of (sourceFiles s) u") (simp_all add: fetchHints_untracked fetchHints_tracked)
  from Cons.prems have "task \<in> set (fetches (fold (fetchHints cur) us (fetchHints cur u s)))"
    by simp
  with Cons.IH [of "fetchHints cur u s"] Cons.prems(2) le
  have "task \<in> set (fetches (fetchHints cur u s))" by simp
  then show ?case using Cons.prems(2) by (rule fetches_fetchHints_old)
qed

lemma pendingRequest_fold_fetchHints_stale:
  "t < tokenSources s \<Longrightarrow> pendingRequest s u \<noteq> Some t \<Longrightarrow>
   pendingRequest (fold (fetchHints cur) us s) u \<noteq> Some t"
proof (induction us arbitrary: s)
  case Nil
  then show ?case by simp
next
  case (Cons k us)
  have le: "tokenSources s \<le> tokenSources (fetchHints cur k s)"
    by (cases "map_of (sourceFiles s) k") (simp_all add: fetchHints_untracked fetchHints_tracked)
  have "pendingRequest (fetchHints cur k s) u \<noteq> Some t"
    using Cons.prems by (simp add: pendingRequest_fetchHints)
  with Cons.IH [of "fetchHints cur k s"] Cons.prems(1) le show ?case by simp
qed

lemma pendingRequest_frame:
  "sourceFiles s' = sourceFiles s \<Longrightarrow> pendingRequest s' = pendingRequest s"
  by (simp add: pendingRequest_def fun_eq_iff)

lemma pendingRequest_settle_stale:
  "pendingRequest s u \<noteq> Some t \<Longrightarrow> pendingRequest (settle t' outcome s) u \<noteq> Some t"
proof (cases "find (\<lambda>task. tokenSource task = t') (fetches s)")
  case None
  assume "pendingRequest s u \<noteq> Some t"
  with None show ?thesis by (simp add: settle_unknown)
next
  case (Some task)
  assume "pendingRequest s u \<noteq> Some t"
  moreover have "pendingRequest (s\<lparr>fetches := filter (\<lambda>task. tokenSource task \<noteq> t') (fetches s)\<rparr>)
      = pendingRequest s"
    by (rule pendingRequest_frame) simp
  ultimately show ?thesis
    by (simp add: settle_known [OF Some] pendingRequest_finally_clear)
qed

lemma handlers_frame [simp]:
  "sourceFiles (onInsertLeave doc s) = sourceFiles s"
  "tokenSources (onInsertLeave doc s) = tokenSources s"
  "fetches (onInsertLeave doc s) = fetches s"
  "disposables (onInsertLeave doc s) = disposables s"
  "sourceFiles (onDidChangeTextDocument doc s) = sourceFiles s"
  "tokenSources (onDidChangeTextDocument doc s) = tokenSources s"
  "fetches (onDidChangeTextDocument doc s) = fetches s"
  "disposables (onDidChangeTextDocument doc s) = disposables s"
  "tokenSources (onDidOpenTextDocument e doc s) = tokenSources s"
  "fetches (onDidOpenTextDocument e doc s) = fetches s"
  "disposables (onDidOpenTextDocument e doc s) = disposables s"
  by (simp_all add: onInsertLeave_def onDidChangeTextDocument_def onDidOpenTextDocument_def
        Let_def split: option.splits)

lemma pendingRequest_onDidOpenTextDocument [simp]:
  "pendingRequest (onDidOpenTextDocument e doc s) = pendingRequest s"
proof -
  have "pendingRequest (syncAndRenderHints (clear_buffer u (register d s))) = pendingRequest s"
    for u d
    by (simp add: pendingRequest_frame [of "syncAndRenderHints (clear_buffer u (register d s))" "register d s"])
  then show ?thesis
    by (simp add: onDidOpenTextDocument_def Let_def split: option.splits)
qed

lemma tokenSources_step: "tokenSources s \<le> tokenSources (step ev s)"
proof (cases ev)
  case ResumeSync
  let ?s1 = "s\<lparr>syncsAwaiting := syncsAwaiting s - 1\<rparr>"
  have "tokenSources ?s1 \<le> tokenSources (fold (fetchHints (activeDocument ?s1)) (map fst (sourceFiles ?s1)) ?s1)"
    by (rule tokenSources_fold_fetchHints)
  with ResumeSync show ?thesis by (simp add: syncAndRenderHints_resume_def)
qed simp_all

lemma fetches_step_old:
  assumes "task \<in> set (fetches (step ev s))" and "tokenSource task < tokenSources s"
  shows "task \<in> set (fetches s)"
proof (cases ev)
  case ResumeSync
  let ?s1 = "s\<lparr>syncsAwaiting := syncsAwaiting s - 1\<rparr>"
  show ?thesis
  proof (cases "syncsAwaiting s = 0")
    case True
    with assms ResumeSync show ?thesis by simp
  next
    case False
    with assms ResumeSync
    have "task \<in> set (fetches (fold (fetchHints (activeDocument ?s1)) (map fst (sourceFiles ?s1)) ?s1))"
      by (simp add: syncAndRenderHints_resume_def)
    moreover from assms have "tokenSource task < tokenSources ?s1" by simp
    ultimately have "task \<in> set (fetches ?s1)" by (rule fetches_fold_fetchHints_old)
    then show ?thesis by simp
  qed
next
  case (Settle t outcome)
  with assms show ?thesis by simp
qed (use assms in \<open>simp_all split: if_splits\<close>)

lemma pendingRequest_step_stale:
  assumes "t < tokenSources s" and "pendingRequest s u \<noteq> Some t"
  shows "pendingRequest (step ev s) u \<noteq> Some t"
proof (cases ev)
  case ResumeSync
  let ?s1 = "s\<lparr>syncsAwaiting := syncsAwaiting s - 1\<rparr>"
  have "pendingRequest ?s1 = pendingRequest s" by (rule pendingRequest_frame) simp
  with assms have "pendingRequest (fold (fetchHints (activeDocument ?s1)) (map fst (sourceFiles ?s1)) ?s1) u \<noteq> Some t"
    by (intro pendingRequest_fold_fetchHints_stale) simp_all
  with assms ResumeSync show ?thesis by (simp add: syncAndRenderHints_resume_def)
next
  case (Settle t' outcome)
  with assms show ?thesis by (simp add: pendingRequest_settle_stale)
next
  case (InsertLeave doc)
  have "pendingRequest (onInsertLeave doc s) = pendingRequest s" by (rule pendingRequest_frame) simp
  with assms InsertLeave show ?thesis by simp
next
  case (DidChangeTextDocument doc)
  have "pendingRequest (onDidChangeTextDocument doc s) = pendingRequest s"
    by (rule pendingRequest_frame) simp
  with assms DidChangeTextDocument show ?thesis by simp
next
  case (DidOpenTextDocument e doc)
  with assms show ?thesis by simp
next
  case Toggle
  have "pendingRequest (toggle s) = pendingRequest s" by (rule pendingRequest_frame) simp
  with assms Toggle show ?thesis by simp
next
  case SyncAndRenderHints
  have "pendingRequest (syncAndRenderHints s) = pendingRequest s" by (rule pendingRequest_frame) simp
  with assms SyncAndRenderHints show ?thesis by simp
next
  case Dispose
  have "pendingRequest (dispose s) = pendingRequest s" by (rule pendingRequest_frame) simp
  with assms Dispose show ?thesis by simp
next
  case ResumeToggle
  have "pendingRequest (toggle_resume (s\<lparr>togglesAwaiting := togglesAwaiting s - 1\<rparr>)) = pendingRequest s"
    by (rule pendingRequest_frame) simp
  with assms ResumeToggle show ?thesis by simp
next
  case (BufEnter d)
  have "pendingRequest (s\<lparr>activeDocument := d\<rparr>) = pendingRequest s" by (rule pendingRequest_frame) simp
  with assms BufEnter show ?thesis by simp
next
  case (SetInsertMode b)
  have "pendingRequest (s\<lparr>insertMode := b\<rparr>) = pendingRequest s" by (rule pendingRequest_frame) simp
  with assms SetInsertMode show ?thesis by simp
qed

subsection \<open>Runs\<close>

lemma run_Nil: "run [] s = s"
  by (simp add: run_def)

lemma run_Cons: "run (ev # evs) s = run evs (step ev s)"
  by (simp add: run_def)

lemma tokenSources_run: "tokenSources s \<le> tokenSources (run evs s)"
proof (induction evs arbitrary: s)
  case Nil
  show ?case by (simp add: run_Nil)
next
  case (Cons ev evs)
  from tokenSources_step [of s ev] Cons [of "step ev s"] show ?case by (simp add: run_Cons)
qed

lemma fetches_run_old:
  "task \<in> set (fetches (run evs s)) \<Longrightarrow> tokenSource task < tokenSources s \<Longrightarrow>
   task \<in> set (fetches s)"
proof (induction evs arbitrary: s)
  case Nil
  then show ?case by (simp add: run_Nil)
next
  case (Cons ev evs)
  from Cons.prems(2) tokenSources_step [of s ev]
  have lt: "tokenSource task < tokenSources (step ev s)" by simp
  from Cons.prems(1) have "task \<in> set (fetches (run evs (step ev s)))" by (simp add: run_Cons)
  then have "task \<in> set (fetches (step ev s))" using lt by (rule Cons.IH)
  then show ?case using Cons.prems(2) by (rule fetches_step_old)
qed

lemma pendingRequest_run_stale:
  "t < tokenSources s \<Longrightarrow> pendingRequest s u \<noteq> Some t \<Longrightarrow>
   pendingRequest (run evs s) u \<noteq> Some t"
proof (induction evs arbitrary: s)
  case Nil
  then show ?case by (simp add: run_Nil)
next
  case (Cons ev evs)
  from Cons.prems(1) tokenSources_step [of s ev]
  have lt: "t < tokenSources (step ev s)" by simp
  from Cons.prems have "pendingRequest (step ev s) u \<noteq> Some t"
    by (rule pendingRequest_step_stale)
  with lt have "pendingRequest (run evs (step ev s)) u \<noteq> Some t" by (rule Cons.IH)
  then show ?case by (simp add: run_Cons)
qed

lemma find_token:
  "distinct (map tokenSource tasks) \<Longrightarrow> task \<in> set tasks \<Longrightarrow>
   find (\<lambda>x. tokenSource x = tokenSource task) tasks = Some task"
  by (induction tasks) (auto simp: image_iff)

lemma find_token_Some:
  "find (\<lambda>x. tokenSource x = t) tasks = Some task \<Longrightarrow> task \<in> set tasks \<and> tokenSource task = t"
  by (induction tasks) (auto split: if_splits)

lemma sourceFiles_settle_stale:
  assumes "\<And>task. task \<in> set (fetches s) \<Longrightarrow> tokenSource task = t \<Longrightarrow>
             pendingRequest s (file_uri task) \<noteq> Some t"
  shows "sourceFiles (settle t outcome s) = sourceFiles s"
proof (cases "find (\<lambda>task. tokenSource task = t) (fetches s)")
  case None
  then show ?thesis by (simp add: settle_unknown)
next
  case (Some task)
  let ?s1 = "s\<lparr>fetches := filter (\<lambda>task. tokenSource task \<noteq> t) (fetches s)\<rparr>"
  from find_token_Some [OF Some] assms
  have "pendingRequest s (file_uri task) \<noteq> Some (tokenSource task)" by auto
  moreover have "pendingRequest ?s1 = pendingRequest s" by (rule pendingRequest_frame) simp
  ultimately have "finally_clear task ?s1 = ?s1" by (simp add: finally_clear_stale)
  then show ?thesis by (simp add: settle_known [OF Some])
qed

lemma namespace_settle:
  "find (\<lambda>x. tokenSource x = t) (fetches s) = Some task \<Longrightarrow>
   namespace (settle t outcome s) =
     (case outcome of
        Inl e \<Rightarrow> namespace s
      | Inr hints \<Rightarrow>
          (case current task of
             None \<Rightarrow> namespace s
           | Some cur \<Rightarrow>
               if uri cur = file_uri task \<and> isRustDocument cur
               then (namespace s)(file_uri task :=
                      renderHints (config s) hints (namespace s (file_uri task)))
               else namespace s))"
  by (auto simp: settle_known then_render_def catch_null_def split: sum.splits option.splits)

lemma namespace_settle_rejected: "namespace (settle t (Inl e) s) = namespace s"
  by (cases "find (\<lambda>x. tokenSource x = t) (fetches s)")
     (simp_all add: settle_unknown namespace_settle)

subsection \<open>The example states\<close>

lemmas eval_defs =
  run_def example_start_def constructor_def a_rs_def b_rs_def scenario_config_def hint_at_def
  syncAndRenderHints_def syncAndRenderHints_resume_def fetchHints_def cancel_request_def
  clear_buffer_def clearNamespace_def settle_def fetchHints_settle_def catch_null_def
  finally_clear_def then_render_def renderHints_def setVirtualText_def
  onInsertLeave_def onDidChangeTextDocument_def onDidOpenTextDocument_def register_def
  dispose_def toggle_def toggle_resume_def pendingRequest_def Let_def

lemma fetches_example_superseded:
  "fetches example_superseded =
     [task_A, \<lparr>tokenSource = 1, file_uri = ''b.rs'', current = Some a_rs\<rparr>,
      \<lparr>tokenSource = 2, file_uri = ''a.rs'', current = Some a_rs\<rparr>,
      \<lparr>tokenSource = 3, file_uri = ''b.rs'', current = Some a_rs\<rparr>]"
  by (simp add: example_superseded_def eval_defs task_A_def)

lemma sourceFiles_example_superseded:
  "sourceFiles example_superseded =
     [(''a.rs'', \<lparr>inlaysRequest = Some 2, document = a_rs\<rparr>),
      (''b.rs'', \<lparr>inlaysRequest = Some 3, document = b_rs\<rparr>)]"
  by (simp add: example_superseded_def eval_defs)

lemma example_B_resolved_step:
  "example_B_resolved = settle 2 (Inr [hint_B]) example_superseded"
  by (simp add: example_B_resolved_def run_def)

lemma fetches_example_B_resolved:
  "fetches example_B_resolved =
     [task_A, \<lparr>tokenSource = 1, file_uri = ''b.rs'', current = Some a_rs\<rparr>,
      \<lparr>tokenSource = 3, file_uri = ''b.rs'', current = Some a_rs\<rparr>]"
  by (simp add: example_B_resolved_step fetches_example_superseded task_A_def)

lemma namespace_example_B_resolved:
  "namespace example_B_resolved ''a.rs'' = [overlay_of '': '' ''CocRustTypeHint'' hint_B]"
  by (simp add: example_B_resolved_def example_superseded_def eval_defs overlay_of_def hint_B_def)

subsection \<open>What a pass issues\<close>

lemma fetches_fold_fetchHints:
  "set us \<subseteq> fst ` set (sourceFiles s) \<Longrightarrow>
   fetches (fold (fetchHints cur) us s) =
     fetches s @
     map (\<lambda>(t, u). \<lparr>tokenSource = t, file_uri = u, current = cur\<rparr>)
       (zip [tokenSources s ..< tokenSources s + length us] us)"
proof (induction us arbitrary: s)
  case Nil
  show ?case by simp
next
  case (Cons u us)
  from Cons.prems have "u \<in> fst ` set (sourceFiles s)" by simp
  then obtain fl where fl: "map_of (sourceFiles s) u = Some fl"
    by (cases "map_of (sourceFiles s) u") (auto simp: map_of_eq_None_iff)
  let ?s1 = "fetchHints cur u s"
  have "fst ` set (sourceFiles ?s1) = fst ` set (sourceFiles s)"
    using keys_fetchHints [of cur u s] by (metis list.set_map)
  with Cons.prems have "set us \<subseteq> fst ` set (sourceFiles ?s1)" by simp
  from Cons.IH [OF this]
  have "fetches (fold (fetchHints cur) us ?s1) =
      (fetches s @ [\<lparr>tokenSource = tokenSources s, file_uri = u, current = cur\<rparr>]) @
      map (\<lambda>(t, u). \<lparr>tokenSource = t, file_uri = u, current = cur\<rparr>)
        (zip [Suc (tokenSources s) ..< Suc (tokenSources s) + length us] us)"
    by (simp add: fetchHints_tracked [OF fl])
  moreover have "[tokenSources s ..< tokenSources s + length (u # us)] =
      tokenSources s # [Suc (tokenSources s) ..< Suc (tokenSources s) + length us]"
    using upt_conv_Cons [of "tokenSources s" "tokenSources s + Suc (length us)"] by simp
  ultimately show ?case by simp
qed

lemma fetches_syncAndRenderHints_resume:
  "fetches (syncAndRenderHints_resume s) =
     fetches s @
     map (\<lambda>(t, u). \<lparr>tokenSource = t, file_uri = u, current = activeDocument s\<rparr>)
       (zip [tokenSources s ..< tokenSources s + length (sourceFiles s)] (map fst (sourceFiles s)))"
  using fetches_fold_fetchHints [of "map fst (sourceFiles s)" s "activeDocument s"]
  by (simp add: syncAndRenderHints_resume_def)

lemma current_syncAndRenderHints_resume:
  "task \<in> set (drop (length (fetches s)) (fetches (syncAndRenderHints_resume s))) \<Longrightarrow>
   current task = activeDocument s"
  by (auto simp: fetches_syncAndRenderHints_resume)

lemma namespace_settle_activeDocument:
  "namespace (settle t outcome (s\<lparr>activeDocument := d\<rparr>)) = namespace (settle t outcome s)"
  by (cases "find (\<lambda>x. tokenSource x = t) (fetches s)")
     (simp_all add: settle_unknown namespace_settle split: sum.splits option.splits)

lemma fetches_example_switched:
  "fetches example_switched =
     [\<lparr>tokenSource = 0, file_uri = ''a.rs'', current = Some a_rs\<rparr>,
      \<lparr>tokenSource = 1, file_uri = ''b.rs'', current = Some a_rs\<rparr>]"
  by (simp add: example_switched_def eval_defs)

lemma namespace_example_switched: "namespace example_switched ''a.rs'' = []"
  by (simp add: example_switched_def eval_defs)

lemma config_example_switched: "config example_switched = scenario_config True"
  by (simp add: example_switched_def eval_defs)

lemma activeDocument_example_switched: "activeDocument example_switched = Some b_rs"
  by (simp add: example_switched_def eval_defs)

subsection \<open>One pending request per document\<close>

lemma filter_token_le_1:
  "distinct (map tokenSource tasks) \<Longrightarrow>
   length (filter (\<lambda>task. P task \<and> t = tokenSource task) tasks) \<le> 1"
proof (induction tasks)
  case Nil
  show ?case by simp
next
  case (Cons x xs)
  show ?case
  proof (cases "tokenSource x = t")
    case True
    with Cons.prems have "\<forall>task \<in> set xs. t \<noteq> tokenSource task" by (auto simp: image_iff)
    then have "filter (\<lambda>task. P task \<and> t = tokenSource task) xs = []"
      by (simp add: filter_empty_conv)
    then have "length (filter (\<lambda>task. P task \<and> t = tokenSource task) (x # xs)) =
        (if P x \<and> t = tokenSource x then 1 else 0)"
      by (simp only: filter.simps list.size split: if_splits) simp
    then show ?thesis by simp
  next
    case False
    with Cons show ?thesis by simp
  qed
qed

lemma current_fetches_le_1:
  assumes "invar s"
  shows "length (filter (\<lambda>task. file_uri task = u \<and> pendingRequest s u = Some (tokenSource task))
           (fetches s)) \<le> 1"
proof (cases "pendingRequest s u")
  case None
  then show ?thesis by simp
next
  case (Some t)
  from assms have "distinct (map tokenSource (fetches s))" by (simp add: invar_iff)
  then show ?thesis
    using filter_token_le_1 [of "fetches s" "\<lambda>task. file_uri task = u" t] by (simp add: Some)
qed

lemma pendingRequest_lt:
  "invar s \<Longrightarrow> pendingRequest s u = Some t \<Longrightarrow> t < tokenSources s"
proof -
  assume inv: "invar s" and p: "pendingRequest s u = Some t"
  from p obtain fl where fl: "map_of (sourceFiles s) u = Some fl" and t: "inlaysRequest fl = Some t"
    by (auto simp: pendingRequest_def split: option.splits)
  from fl have "(u, fl) \<in> set (sourceFiles s)" by (rule map_of_SomeD)
  then have "fl \<in> snd ` set (sourceFiles s)" by (rule image_eqI [rotated]) simp
  with inv t show ?thesis by (auto simp: invar_iff)
qed

subsection \<open>Toggling\<close>

lemma cancelled_dispose:
  "cancelled (dispose s) =
     cancelled s \<union> {t. \<exists>f \<in> snd ` set (sourceFiles s). inlaysRequest f = Some t}"
  by (simp add: dispose_def Let_def cancelled_fold_cancel_request)

lemma pendingRequest_cancelled_dispose:
  "pendingRequest s u = Some t \<Longrightarrow> t \<in> cancelled (dispose s)"
proof -
  assume "pendingRequest s u = Some t"
  then obtain fl where fl: "map_of (sourceFiles s) u = Some fl" and t: "inlaysRequest fl = Some t"
    by (auto simp: pendingRequest_def split: option.splits)
  from fl have "(u, fl) \<in> set (sourceFiles s)" by (rule map_of_SomeD)
  then have "fl \<in> snd ` set (sourceFiles s)" by (rule image_eqI [rotated]) simp
  with t show ?thesis by (auto simp: cancelled_dispose)
qed

lemma toggle_off:
  "inlayHintsEnabled s \<Longrightarrow>
   toggle s = (dispose (s\<lparr>inlayHintsEnabled := False\<rparr>))\<lparr>togglesAwaiting := Suc (togglesAwaiting s)\<rparr>"
  by (simp add: toggle_def Let_def)

lemma toggle_on:
  "\<not> inlayHintsEnabled s \<Longrightarrow>
   toggle s = s\<lparr>inlayHintsEnabled := True, syncsAwaiting := Suc (syncsAwaiting s)\<rparr>"
  by (simp add: toggle_def syncAndRenderHints_def)

lemma example_hinted_start:
  "example_hinted = run [ResumeSync, Settle 0 (Inr [hint_A]), BufEnter (Some b_rs)]
     (constructor (scenario_config True) [a_rs, b_rs] (Some a_rs) False (\<lambda>u. []))"
  by (simp add: example_hinted_def example_start_def)

lemma example_disabled_eq: "example_disabled = step ResumeToggle (toggle example_hinted)"
  by (simp add: example_disabled_def run_def)

subsection \<open>Supersession\<close>

lemma pendingRequest_fold_fetchHints_other:
  "u \<notin> set us \<Longrightarrow> pendingRequest (fold (fetchHints cur) us s) u = pendingRequest s u"
  by (induction us arbitrary: s) (simp_all add: pendingRequest_fetchHints)

lemma pendingRequest_fold_fetchHints_new:
  "u \<in> set us \<Longrightarrow> set us \<subseteq> fst ` set (sourceFiles s) \<Longrightarrow>
   \<exists>t \<ge> tokenSources s. pendingRequest (fold (fetchHints cur) us s) u = Some t"
proof (induction us arbitrary: s)
  case Nil
  then show ?case by simp
next
  case (Cons k us)
  let ?s1 = "fetchHints cur k s"
  from Cons.prems(2) have "k \<in> fst ` set (sourceFiles s)" by simp
  then obtain fl where fl: "map_of (sourceFiles s) k = Some fl"
    by (cases "map_of (sourceFiles s) k") (auto simp: map_of_eq_None_iff)
  have le: "tokenSources s \<le> tokenSources ?s1"
    by (simp add: fetchHints_tracked [OF fl])
  have "fst ` set (sourceFiles ?s1) = fst ` set (sourceFiles s)"
    using keys_fetchHints [of cur k s] by (metis list.set_map)
  with Cons.prems(2) have sub: "set us \<subseteq> fst ` set (sourceFiles ?s1)" by simp
  show ?case
  proof (cases "u \<in> set us")
    case True
    from Cons.IH [OF True sub] obtain t where
      "tokenSources ?s1 \<le> t" and "pendingRequest (fold (fetchHints cur) us ?s1) u = Some t"
      by blast
    with le show ?thesis by (intro exI [of _ t]) simp
  next
    case False
    with Cons.prems(1) have "u = k" by simp
    with False fl have "pendingRequest (fold (fetchHints cur) us ?s1) u = Some (tokenSources s)"
      by (simp add: pendingRequest_fold_fetchHints_other pendingRequest_fetchHints)
    then show ?thesis by (intro exI [of _ "tokenSources s"]) simp
  qed
qed

lemma superseded_by_pass:
  assumes "invar s" and "task \<in> set (fetches s)"
    and "file_uri task \<in> fst ` set (sourceFiles s)"
  shows "superseded (syncAndRenderHints_resume s) task"
proof -
  from assms(1,2) have lt: "tokenSource task < tokenSources s" by (simp add: invar_iff)
  from assms(3) have "file_uri task \<in> set (map fst (sourceFiles s))" by simp
  then obtain t where "tokenSources s \<le> t"
    and "pendingRequest (syncAndRenderHints_resume s) (file_uri task) = Some t"
    unfolding syncAndRenderHints_resume_def
    using pendingRequest_fold_fetchHints_new [of "file_uri task" "map fst (sourceFiles s)" s "activeDocument s"]
    by auto
  with lt have "pendingRequest (syncAndRenderHints_resume s) (file_uri task) \<noteq> Some (tokenSource task)"
    by simp
  moreover from assms(2) have "task \<in> set (fetches (syncAndRenderHints_resume s))"
    by (simp add: fetches_syncAndRenderHints_resume)
  ultimately show ?thesis by (simp add: superseded_def)
qed

section \<open>The claims\<close>

text \<open>
  C1, as amended. Let a fetch \<open>task\<close> be superseded in a state the updater reaches.
  Then, whatever happens next: its token source is never recorded for its document
  again; when it settles, with whatever outcome, \<^verbatim>\<open>sourceFiles\<close> is left as it is (the
  callback of \<^verbatim>\<open>finally\<close> does not clear the \<^verbatim>\<open>inlaysRequest\<close> of the newer fetch); when
  it settles rejected, as a backend that honours the cancellation makes it, nothing is
  painted. Painting is not gated by the token: when it settles with hints, they are
  rendered if the document its pass captured as \<^verbatim>\<open>current\<close> is its own document.
  And a pass that resumes supersedes every fetch in flight of a tracked document.
\<close>

theorem superseded_completion:
  assumes "s = run evs (constructor cfg docs active ins ns)"
    and "superseded s task"
    and "s' = run evs' s"
  shows "pendingRequest s' (file_uri task) \<noteq> Some (tokenSource task) \<and>
     sourceFiles (settle (tokenSource task) outcome s') = sourceFiles s' \<and>
     namespace (settle (tokenSource task) (Inl e) s') = namespace s' \<and>
     (task \<in> set (fetches s') \<longrightarrow>
        namespace (settle (tokenSource task) (Inr hints) s') =
          (case current task of
             None \<Rightarrow> namespace s'
           | Some cur \<Rightarrow>
               if uri cur = file_uri task \<and> isRustDocument cur
               then (namespace s')(file_uri task :=
                      renderHints (config s') hints (namespace s' (file_uri task)))
               else namespace s')) \<and>
     (\<forall>task0 \<in> set (fetches s).
        file_uri task0 \<in> fst ` set (sourceFiles s) \<longrightarrow>
        superseded (syncAndRenderHints_resume s) task0)"
proof -
  have inv: "invar s"
    using assms(1) by (simp add: invar_run invar_constructor)
  then have inv': "invar s'"
    using assms(3) by (simp add: invar_run)
  from assms(2) have mem: "task \<in> set (fetches s)"
    and old: "pendingRequest s (file_uri task) \<noteq> Some (tokenSource task)"
    by (simp_all add: superseded_def)
  from inv mem have lt: "tokenSource task < tokenSources s"
    by (simp add: invar_iff)
  from lt old have stale: "pendingRequest s' (file_uri task) \<noteq> Some (tokenSource task)"
    unfolding assms(3) by (rule pendingRequest_run_stale)
  have same: "task' = task"
    if "task' \<in> set (fetches s')" and "tokenSource task' = tokenSource task" for task'
  proof -
    from that lt have "task' \<in> set (fetches s)"
      unfolding assms(3) by (auto intro: fetches_run_old)
    moreover from inv have "inj_on tokenSource (set (fetches s))"
      by (simp add: invar_iff distinct_map)
    ultimately show ?thesis using mem that(2) by (auto dest: inj_onD)
  qed
  have files: "sourceFiles (settle (tokenSource task) outcome s') = sourceFiles s'"
  proof (rule sourceFiles_settle_stale)
    fix task'
    assume "task' \<in> set (fetches s')" and "tokenSource task' = tokenSource task"
    then have "task' = task" by (rule same)
    with stale show "pendingRequest s' (file_uri task') \<noteq> Some (tokenSource task)" by simp
  qed
  have paint: "namespace (settle (tokenSource task) (Inr hints) s') =
          (case current task of
             None \<Rightarrow> namespace s'
           | Some cur \<Rightarrow>
               if uri cur = file_uri task \<and> isRustDocument cur
               then (namespace s')(file_uri task :=
                      renderHints (config s') hints (namespace s' (file_uri task)))
               else namespace s')" if "task \<in> set (fetches s')"
  proof -
    from inv' that have "find (\<lambda>x. tokenSource x = tokenSource task) (fetches s') = Some task"
      by (simp add: invar_iff find_token)
    from namespace_settle [OF this, of "Inr hints"] show ?thesis by simp
  qed
  have pass: "\<forall>task0 \<in> set (fetches s).
      file_uri task0 \<in> fst ` set (sourceFiles s) \<longrightarrow>
      superseded (syncAndRenderHints_resume s) task0"
    using inv by (blast intro: superseded_by_pass)
  from stale files paint pass show ?thesis
    by (simp add: namespace_settle_rejected)
qed

text \<open>
  The theorem at the example: fetch 0 of \<open>a.rs\<close> is superseded by fetch 2, fetch 2
  resolves, then fetch 0 resolves with a hint.
\<close>

theorem superseded_completion_witness:
  "superseded example_superseded task_A \<and>
   pendingRequest example_superseded ''a.rs'' = Some 2 \<and>
   pendingRequest example_B_resolved ''a.rs'' = None \<and>
   sourceFiles (settle 0 (Inr [hint_A]) example_B_resolved) = sourceFiles example_B_resolved \<and>
   namespace example_B_resolved ''a.rs'' = [overlay_of '': '' ''CocRustTypeHint'' hint_B] \<and>
   namespace (settle 0 (Inr [hint_A]) example_B_resolved) ''a.rs'' =
     [overlay_of '': '' ''CocRustTypeHint'' hint_A] \<and>
   superseded (syncAndRenderHints_resume example_superseded)
     \<lparr>tokenSource = 2, file_uri = ''a.rs'', current = Some a_rs\<rparr>"
proof -
  have start: "example_superseded = run [ResumeSync, SyncAndRenderHints, ResumeSync]
      (constructor (scenario_config True) [a_rs, b_rs] (Some a_rs) False (\<lambda>u. []))"
    by (simp add: example_superseded_def example_start_def)
  have pending: "pendingRequest example_superseded ''a.rs'' = Some 2"
    by (simp add: pendingRequest_def sourceFiles_example_superseded)
  have "pendingRequest example_superseded (file_uri task_A) \<noteq> Some (tokenSource task_A)"
    by (simp add: task_A_def pending)
  then have sup: "superseded example_superseded task_A"
    by (simp add: superseded_def fetches_example_superseded)
  have pending': "pendingRequest example_B_resolved ''a.rs'' = None"
    by (simp add: pendingRequest_def example_B_resolved_step settle_def
          fetches_example_superseded task_A_def fetchHints_settle_def finally_clear_def
          sourceFiles_example_superseded)
  have mem': "task_A \<in> set (fetches example_B_resolved)"
    by (simp add: fetches_example_B_resolved)
  have cfg': "config example_B_resolved = scenario_config True"
    by (simp add: example_B_resolved_def example_superseded_def eval_defs)
  note inst = superseded_completion [OF start sup example_B_resolved_def,
      of "Inr [hint_A]" RequestCancelled "[hint_A]"]
  from inst have files:
    "sourceFiles (settle 0 (Inr [hint_A]) example_B_resolved) = sourceFiles example_B_resolved"
    by (simp add: task_A_def)
  from inst mem' have "namespace (settle 0 (Inr [hint_A]) example_B_resolved) ''a.rs'' =
      renderHints (config example_B_resolved) [hint_A] (namespace example_B_resolved ''a.rs'')"
    by (simp add: task_A_def a_rs_def)
  then have paint: "namespace (settle 0 (Inr [hint_A]) example_B_resolved) ''a.rs'' =
      [overlay_of '': '' ''CocRustTypeHint'' hint_A]"
    by (simp add: cfg' renderHints_def scenario_config_def hint_A_def hint_at_def overlay_of_def
          setVirtualText_def clearNamespace_def)
  have "\<lparr>tokenSource = 2, file_uri = ''a.rs'', current = Some a_rs\<rparr> \<in> set (fetches example_superseded)"
    by (simp add: fetches_example_superseded)
  moreover have "file_uri \<lparr>tokenSource = 2, file_uri = ''a.rs'', current = Some a_rs\<rparr>
      \<in> fst ` set (sourceFiles example_superseded)"
    by (simp add: sourceFiles_example_superseded)
  ultimately have again: "superseded (syncAndRenderHints_resume example_superseded)
      \<lparr>tokenSource = 2, file_uri = ''a.rs'', current = Some a_rs\<rparr>"
    using inst by blast
  from sup pending pending' files namespace_example_B_resolved paint again show ?thesis
    by (intro conjI)
qed

text \<open>
  C1 as stated fails: in \<open>example_B_resolved\<close> the fetch \<open>task_A\<close> of \<open>a.rs\<close> has been
  superseded and cancelled, and the fetch that superseded it has resolved and painted
  its hint; when \<open>task_A\<close> then resolves with a hint, the handler paints it over the
  newer result.
\<close>

theorem superseded_result_rendered:
  "superseded example_B_resolved task_A \<and>
   tokenSource task_A \<in> cancelled example_B_resolved \<and>
   namespace example_B_resolved ''a.rs'' = [overlay_of '': '' ''CocRustTypeHint'' hint_B] \<and>
   namespace (step (Settle (tokenSource task_A) (Inr [hint_A])) example_B_resolved) ''a.rs'' =
     [overlay_of '': '' ''CocRustTypeHint'' hint_A]"
proof -
  have mem: "task_A \<in> set (fetches example_B_resolved)"
    by (simp add: fetches_example_B_resolved)
  have canc: "tokenSource task_A \<in> cancelled example_B_resolved"
    by (simp add: example_B_resolved_def example_superseded_def eval_defs task_A_def)
  have pend: "pendingRequest example_B_resolved (file_uri task_A) \<noteq> Some (tokenSource task_A)"
    by (simp add: example_B_resolved_def example_superseded_def eval_defs task_A_def)
  have paint: "namespace (step (Settle (tokenSource task_A) (Inr [hint_A])) example_B_resolved) ''a.rs'' =
     [overlay_of '': '' ''CocRustTypeHint'' hint_A]"
    by (simp add: example_B_resolved_def example_superseded_def eval_defs task_A_def
          overlay_of_def hint_A_def hint_B_def)
  from mem pend have sup: "superseded example_B_resolved task_A"
    by (simp add: superseded_def)
  from sup canc namespace_example_B_resolved paint show ?thesis
    by (intro conjI)
qed

text \<open>
  C2, as amended. When the fetch with token source \<open>t\<close> settles, the namespace changes
  only through \<^verbatim>\<open>renderHints\<close> on the buffer of the fetch's own document, and only if the
  backend resolved with hints and the document its pass captured as \<^verbatim>\<open>current\<close> is that
  document and a Rust document; otherwise the result is discarded without painting.
  The document displayed when the fetch settles is not consulted; \<^verbatim>\<open>current\<close> is the
  document displayed when the pass resumed from \<^verbatim>\<open>await workspace.document\<close>, the same
  for every fetch the pass issues.
\<close>

theorem rendered_only_for_captured_current:
  assumes "find (\<lambda>x. tokenSource x = t) (fetches s) = Some task"
  shows "namespace (settle t outcome s) =
     (case outcome of
        Inl e \<Rightarrow> namespace s
      | Inr hints \<Rightarrow>
          (case current task of
             None \<Rightarrow> namespace s
           | Some cur \<Rightarrow>
               if uri cur = file_uri task \<and> isRustDocument cur
               then (namespace s)(file_uri task :=
                      renderHints (config s) hints (namespace s (file_uri task)))
               else namespace s)) \<and>
     namespace (settle t outcome (s\<lparr>activeDocument := d\<rparr>)) = namespace (settle t outcome s) \<and>
     (\<forall>task' \<in> set (drop (length (fetches s0)) (fetches (syncAndRenderHints_resume s0))).
        current task' = activeDocument s0)"
  using assms
  by (simp add: namespace_settle namespace_settle_activeDocument current_syncAndRenderHints_resume)

text \<open>
  The theorem at the example: fetch 0 of \<open>a.rs\<close>, issued while \<open>a.rs\<close> was displayed,
  resolves while \<open>b.rs\<close> is displayed, and is painted on \<open>a.rs\<close>.
\<close>

theorem rendered_only_for_captured_current_witness:
  "find (\<lambda>x. tokenSource x = 0) (fetches example_switched) = Some task_A \<and>
   namespace (settle 0 (Inr [hint_A]) example_switched) =
     (namespace example_switched)(''a.rs'' := [overlay_of '': '' ''CocRustTypeHint'' hint_A]) \<and>
   current task_A = activeDocument example_start"
proof -
  have found: "find (\<lambda>x. tokenSource x = 0) (fetches example_switched) = Some task_A"
    by (simp add: fetches_example_switched task_A_def)
  note inst = rendered_only_for_captured_current [OF found, of "Inr [hint_A]" None example_start]
  have render: "renderHints (scenario_config True) [hint_A] [] =
      [overlay_of '': '' ''CocRustTypeHint'' hint_A]"
    by (simp add: renderHints_def scenario_config_def hint_A_def hint_at_def overlay_of_def
          setVirtualText_def clearNamespace_def)
  from inst have paint: "namespace (settle 0 (Inr [hint_A]) example_switched) =
     (namespace example_switched)(''a.rs'' := [overlay_of '': '' ''CocRustTypeHint'' hint_A])"
    by (simp add: task_A_def a_rs_def config_example_switched namespace_example_switched render)
  have "task_A \<in> set (drop (length (fetches example_start))
      (fetches (syncAndRenderHints_resume example_start)))"
    by (simp add: eval_defs task_A_def)
  with inst have cur: "current task_A = activeDocument example_start"
    by blast
  from found paint cur show ?thesis by (intro conjI)
qed

text \<open>
  C2 as stated fails: in \<open>example_switched\<close> the displayed document is \<open>b.rs\<close>; the fetch
  of \<open>a.rs\<close> resolves and its hint is painted on \<open>a.rs\<close>, which is not the document
  displayed at that moment.
\<close>

theorem rendered_on_document_not_displayed:
  "activeDocument example_switched = Some b_rs \<and>
   uri b_rs \<noteq> ''a.rs'' \<and>
   find (\<lambda>x. tokenSource x = 0) (fetches example_switched) = Some task_A \<and>
   file_uri task_A = ''a.rs'' \<and>
   namespace example_switched ''a.rs'' = [] \<and>
   namespace (step (Settle 0 (Inr [hint_A])) example_switched) ''a.rs'' =
     [overlay_of '': '' ''CocRustTypeHint'' hint_A]"
proof -
  have "uri b_rs \<noteq> ''a.rs''" by (simp add: b_rs_def)
  moreover have "find (\<lambda>x. tokenSource x = 0) (fetches example_switched) = Some task_A"
    by (simp add: fetches_example_switched task_A_def)
  moreover have "file_uri task_A = ''a.rs''" by (simp add: task_A_def)
  moreover have "namespace (step (Settle 0 (Inr [hint_A])) example_switched) ''a.rs'' =
     [overlay_of '': '' ''CocRustTypeHint'' hint_A]"
    by (simp add: example_switched_def eval_defs overlay_of_def hint_A_def)
  ultimately show ?thesis
    using activeDocument_example_switched namespace_example_switched by (intro conjI)
qed

text \<open>
  C3. In every state the updater reaches, the keys of \<^verbatim>\<open>sourceFiles\<close> are unique, so a
  document has one \<^verbatim>\<open>RustSourceFile\<close> and with it one \<^verbatim>\<open>inlaysRequest\<close>, null or a token
  source, and at most one fetch in flight for the document carries the token source
  recorded for it. \<^verbatim>\<open>fetchHints\<close> on a tracked document cancels the token source
  recorded until then, records a new one, which no document has recorded and no fetch
  in flight carries, and only then adds the backend call, with that token source, to
  the fetches in flight.
\<close>

theorem one_pending_request:
  assumes "s = run evs (constructor cfg docs active ins ns)"
    and "map_of (sourceFiles s) u = Some fl"
  shows "distinct (map fst (sourceFiles s)) \<and>
     length (filter (\<lambda>task. file_uri task = u \<and> pendingRequest s u = Some (tokenSource task))
       (fetches s)) \<le> 1 \<and>
     (\<forall>t. inlaysRequest fl = Some t \<longrightarrow> t \<in> cancelled (fetchHints cur u s)) \<and>
     pendingRequest (fetchHints cur u s) u = Some (tokenSources s) \<and>
     (\<forall>u'. pendingRequest s u' \<noteq> Some (tokenSources s)) \<and>
     (\<forall>task \<in> set (fetches s). tokenSource task \<noteq> tokenSources s) \<and>
     fetches (fetchHints cur u s) =
       fetches s @ [\<lparr>tokenSource = tokenSources s, file_uri = u, current = cur\<rparr>] \<and>
     map fst (sourceFiles (fetchHints cur u s)) = map fst (sourceFiles s)"
proof -
  have inv: "invar s"
    using assms(1) by (simp add: invar_run invar_constructor)
  then have keys: "distinct (map fst (sourceFiles s))" by (simp add: invar_iff)
  have canc: "\<forall>t. inlaysRequest fl = Some t \<longrightarrow> t \<in> cancelled (fetchHints cur u s)"
    by (simp add: fetchHints_tracked [OF assms(2)])
  have new: "pendingRequest (fetchHints cur u s) u = Some (tokenSources s)"
    using assms(2) by (simp add: pendingRequest_fetchHints)
  have fresh1: "\<forall>u'. pendingRequest s u' \<noteq> Some (tokenSources s)"
    using pendingRequest_lt [OF inv] by fastforce
  have fresh2: "\<forall>task \<in> set (fetches s). tokenSource task \<noteq> tokenSources s"
    using inv by (fastforce simp: invar_iff)
  have task: "fetches (fetchHints cur u s) =
      fetches s @ [\<lparr>tokenSource = tokenSources s, file_uri = u, current = cur\<rparr>]"
    by (rule fetchHints_tracked [OF assms(2)])
  have same: "map fst (sourceFiles (fetchHints cur u s)) = map fst (sourceFiles s)"
    by (rule keys_fetchHints)
  from keys current_fetches_le_1 [OF inv, of u] canc new fresh1 fresh2 task same show ?thesis
    by (intro conjI)
qed

text \<open>
  The theorem at the example: in \<open>example_B_resolved\<close> the document \<open>b.rs\<close> has token
  source 3 recorded; a new fetch for it cancels 3 and records 4.
\<close>

theorem one_pending_request_witness:
  "map_of (sourceFiles example_B_resolved) ''b.rs'' = Some \<lparr>inlaysRequest = Some 3, document = b_rs\<rparr> \<and>
   3 \<in> cancelled (fetchHints None ''b.rs'' example_B_resolved) \<and>
   pendingRequest (fetchHints None ''b.rs'' example_B_resolved) ''b.rs'' = Some 4 \<and>
   fetches (fetchHints None ''b.rs'' example_B_resolved) =
     fetches example_B_resolved @ [\<lparr>tokenSource = 4, file_uri = ''b.rs'', current = None\<rparr>]"
proof -
  have start: "example_B_resolved =
      run ([ResumeSync, SyncAndRenderHints, ResumeSync] @ [Settle 2 (Inr [hint_B])])
        (constructor (scenario_config True) [a_rs, b_rs] (Some a_rs) False (\<lambda>u. []))"
    by (simp add: example_B_resolved_def example_superseded_def example_start_def run_def)
  have files: "map_of (sourceFiles example_B_resolved) ''b.rs'' =
      Some \<lparr>inlaysRequest = Some 3, document = b_rs\<rparr>"
    by (simp add: example_B_resolved_def example_superseded_def eval_defs)
  have toks: "tokenSources example_B_resolved = 4"
    by (simp add: example_B_resolved_def example_superseded_def eval_defs)
  note inst = one_pending_request [OF start files, of None]
  from inst have "3 \<in> cancelled (fetchHints None ''b.rs'' example_B_resolved)" by simp
  moreover from inst have "pendingRequest (fetchHints None ''b.rs'' example_B_resolved) ''b.rs'' = Some 4"
    by (simp only: toks)
  moreover from inst have "fetches (fetchHints None ''b.rs'' example_B_resolved) =
     fetches example_B_resolved @ [\<lparr>tokenSource = 4, file_uri = ''b.rs'', current = None\<rparr>]"
    by (simp only: toks)
  ultimately show ?thesis using files by (intro conjI)
qed

text \<open>
  C4, as amended. In a state the updater reaches with the hints enabled, \<^verbatim>\<open>toggle\<close>
  disables them, cancels the token source recorded for every tracked document and
  detaches the change and open listeners; up to its \<^verbatim>\<open>await\<close> it paints and clears
  nothing, and it leaves the fetches in flight and the recorded requests as they are.
  When it resumes, it clears the namespace in the buffer of the document displayed
  then, and in no other buffer.
\<close>

theorem toggle_to_disabled:
  assumes "s = run evs (constructor cfg docs active ins ns)"
    and "inlayHintsEnabled s"
  shows "\<not> inlayHintsEnabled (toggle s) \<and>
     (\<forall>u t. pendingRequest (toggle s) u = Some t \<longrightarrow> t \<in> cancelled (toggle s)) \<and>
     ChangeListener \<notin> set (listeners (toggle s)) \<and>
     OpenListener \<notin> set (listeners (toggle s)) \<and>
     namespace (toggle s) = namespace s \<and>
     fetches (toggle s) = fetches s \<and>
     sourceFiles (toggle s) = sourceFiles s \<and>
     togglesAwaiting (toggle s) = Suc (togglesAwaiting s) \<and>
     (0 < togglesAwaiting s' \<longrightarrow>
        namespace (step ResumeToggle s') =
          (case activeDocument s' of
             None \<Rightarrow> namespace s'
           | Some doc \<Rightarrow> (namespace s')(uri doc := [])))"
proof -
  have inv: "invar s"
    using assms(1) by (simp add: invar_run invar_constructor)
  then have disp: "disposables s = [ChangeListener, OpenListener]" by (simp add: invar_iff)
  let ?s1 = "s\<lparr>inlayHintsEnabled := False\<rparr>"
  have off: "toggle s = (dispose ?s1)\<lparr>togglesAwaiting := Suc (togglesAwaiting s)\<rparr>"
    using assms(2) by (rule toggle_off)
  have p1: "pendingRequest ?s1 = pendingRequest s" by (rule pendingRequest_frame) simp
  have canc: "\<forall>u t. pendingRequest (toggle s) u = Some t \<longrightarrow> t \<in> cancelled (toggle s)"
  proof (intro allI impI)
    fix u t
    assume "pendingRequest (toggle s) u = Some t"
    moreover have "pendingRequest (toggle s) = pendingRequest s" by (rule pendingRequest_frame) simp
    ultimately have "pendingRequest ?s1 u = Some t" by (simp add: p1)
    then have "t \<in> cancelled (dispose ?s1)" by (rule pendingRequest_cancelled_dispose)
    then show "t \<in> cancelled (toggle s)" by (simp add: off)
  qed
  have resume: "0 < togglesAwaiting s' \<longrightarrow>
        namespace (step ResumeToggle s') =
          (case activeDocument s' of
             None \<Rightarrow> namespace s'
           | Some doc \<Rightarrow> (namespace s')(uri doc := []))"
    by (simp add: toggle_resume_def split: option.splits)
  have "\<not> inlayHintsEnabled (toggle s)" by (simp add: off)
  moreover have "ChangeListener \<notin> set (listeners (toggle s))" by (simp add: off disp)
  moreover have "OpenListener \<notin> set (listeners (toggle s))" by (simp add: off disp)
  moreover have "togglesAwaiting (toggle s) = Suc (togglesAwaiting s)" by (simp add: off)
  ultimately show ?thesis using canc resume by simp
qed

text \<open>
  The theorem at the example: \<^verbatim>\<open>toggle\<close> after \<open>hint_A\<close> was painted on \<open>a.rs\<close> and the
  user moved to \<open>b.rs\<close>.
\<close>

theorem toggle_to_disabled_witness:
  "inlayHintsEnabled example_hinted \<and>
   \<not> inlayHintsEnabled (toggle example_hinted) \<and>
   pendingRequest (toggle example_hinted) ''b.rs'' = Some 1 \<and>
   1 \<in> cancelled (toggle example_hinted) \<and>
   listeners (toggle example_hinted) = [InsertLeaveListener] \<and>
   namespace example_disabled = (namespace example_hinted)(''b.rs'' := [])"
proof -
  have on: "inlayHintsEnabled example_hinted"
    by (simp add: example_hinted_def eval_defs)
  have pend: "pendingRequest (toggle example_hinted) ''b.rs'' = Some 1"
    by (simp add: example_hinted_def eval_defs)
  have lst: "listeners (toggle example_hinted) = [InsertLeaveListener]"
    by (simp add: example_hinted_def eval_defs)
  have act: "activeDocument (toggle example_hinted) = Some b_rs"
    by (simp add: example_hinted_def eval_defs)
  have wait: "0 < togglesAwaiting (toggle example_hinted)"
    using on by (simp add: toggle_off)
  note inst = toggle_to_disabled [OF example_hinted_start on, of "toggle example_hinted"]
  from inst have off: "\<not> inlayHintsEnabled (toggle example_hinted)" by blast
  from inst pend have canc: "1 \<in> cancelled (toggle example_hinted)" by blast
  from inst wait have "namespace (step ResumeToggle (toggle example_hinted)) =
      (case activeDocument (toggle example_hinted) of
         None \<Rightarrow> namespace (toggle example_hinted)
       | Some doc \<Rightarrow> (namespace (toggle example_hinted))(uri doc := []))"
    by blast
  then have "namespace example_disabled = (namespace (toggle example_hinted))(''b.rs'' := [])"
    by (simp only: example_disabled_eq act option.case) (simp add: b_rs_def)
  moreover from inst have "namespace (toggle example_hinted) = namespace example_hinted" by blast
  ultimately have ns: "namespace example_disabled = (namespace example_hinted)(''b.rs'' := [])"
    by (simp only:)
  from on off pend canc lst ns show ?thesis by (intro conjI)
qed

text \<open>
  C4 as stated fails: \<open>example_disabled\<close> is disabled and \<^verbatim>\<open>toggle\<close> has run to its end,
  yet \<open>a.rs\<close>, which was hinted, still shows its overlay (only \<open>b.rs\<close>, the document
  displayed, was cleared), and the fetch of \<open>b.rs\<close> is still in flight with its token
  source recorded.
\<close>

theorem disabled_with_overlays_and_fetches:
  "\<not> inlayHintsEnabled example_disabled \<and>
   togglesAwaiting example_disabled = 0 \<and>
   namespace example_disabled ''a.rs'' = [overlay_of '': '' ''CocRustTypeHint'' hint_A] \<and>
   fetches example_disabled = [\<lparr>tokenSource = 1, file_uri = ''b.rs'', current = Some a_rs\<rparr>] \<and>
   pendingRequest example_disabled ''b.rs'' = Some 1"
  by (simp add: example_disabled_def example_hinted_def eval_defs overlay_of_def hint_A_def)

text \<open>
  C5, evaluated. After \<^verbatim>\<open>toggle\<close> off and on again the hints are enabled and a pass
  is waiting to resume, which issues a fetch for every tracked document; but only
  the insert-leave listener is attached: the change and open listeners, attached
  after the constructor, are not attached again, and a change or an opening of a
  tracked Rust document does nothing.
\<close>

theorem toggled_twice_listeners:
  "listeners example_start = [InsertLeaveListener, ChangeListener, OpenListener] \<and>
   inlayHintsEnabled example_toggled_twice \<and>
   syncsAwaiting example_toggled_twice = 1 \<and>
   drop (length (fetches example_toggled_twice)) (fetches (step ResumeSync example_toggled_twice)) =
     [\<lparr>tokenSource = 2, file_uri = ''a.rs'', current = Some a_rs\<rparr>,
      \<lparr>tokenSource = 3, file_uri = ''b.rs'', current = Some a_rs\<rparr>] \<and>
   listeners example_toggled_twice = [InsertLeaveListener] \<and>
   step (DidChangeTextDocument (Some a_rs)) example_toggled_twice = example_toggled_twice \<and>
   step (DidOpenTextDocument (Some a_rs) (Some a_rs)) example_toggled_twice = example_toggled_twice"
proof -
  have l0: "listeners example_start = [InsertLeaveListener, ChangeListener, OpenListener]"
    by (simp add: eval_defs)
  have en: "inlayHintsEnabled example_toggled_twice"
    by (simp add: example_toggled_twice_def eval_defs)
  have sy: "syncsAwaiting example_toggled_twice = 1"
    by (simp add: example_toggled_twice_def eval_defs)
  have fe: "drop (length (fetches example_toggled_twice))
      (fetches (step ResumeSync example_toggled_twice)) =
     [\<lparr>tokenSource = 2, file_uri = ''a.rs'', current = Some a_rs\<rparr>,
      \<lparr>tokenSource = 3, file_uri = ''b.rs'', current = Some a_rs\<rparr>]"
    by (simp add: example_toggled_twice_def eval_defs)
  have l2: "listeners example_toggled_twice = [InsertLeaveListener]"
    by (simp add: example_toggled_twice_def eval_defs)
  from l2 have ch: "step (DidChangeTextDocument (Some a_rs)) example_toggled_twice =
      example_toggled_twice"
    by simp
  from l2 have op: "step (DidOpenTextDocument (Some a_rs) (Some a_rs)) example_toggled_twice =
      example_toggled_twice"
    by simp
  from l0 en sy fe l2 ch op show ?thesis by (intro conjI)
qed

text \<open>
  C6, as amended. When the fetch with token source \<open>t\<close> settles rejected, the handler
  returns at the null check: no buffer is cleared and nothing is drawn, the namespace
  is as it was. All that changes is that the fetch is no longer in flight and that
  its token source, if still recorded, is cleared.
\<close>

theorem failed_fetch_leaves_overlays:
  "namespace (step (Settle t (Inl e)) s) = namespace s \<and>
   step (Settle t (Inl e)) s =
     (case find (\<lambda>task. tokenSource task = t) (fetches s) of
        None \<Rightarrow> s
      | Some task \<Rightarrow>
          finally_clear task (s\<lparr>fetches := filter (\<lambda>task. tokenSource task \<noteq> t) (fetches s)\<rparr>))"
  by (simp add: namespace_settle_rejected settle_def fetchHints_settle_def catch_null_def
        then_render_def split: option.splits)

text \<open>
  C6 as stated fails: in \<open>example_second_pass\<close> the buffer of \<open>a.rs\<close> shows \<open>hint_A\<close> and
  fetch 2 of \<open>a.rs\<close> is in flight; when it fails, the overlay is still there.
\<close>

theorem failed_fetch_overlay_stays:
  "find (\<lambda>task. tokenSource task = 2) (fetches example_second_pass) =
     Some \<lparr>tokenSource = 2, file_uri = ''a.rs'', current = Some a_rs\<rparr> \<and>
   namespace example_second_pass ''a.rs'' = [overlay_of '': '' ''CocRustTypeHint'' hint_A] \<and>
   namespace (step (Settle 2 (Inl RequestFailed)) example_second_pass) ''a.rs'' =
     [overlay_of '': '' ''CocRustTypeHint'' hint_A]"
  by (simp add: example_second_pass_def eval_defs overlay_of_def hint_A_def)

text \<open>
  C7. When the backend promise of a fetch is rejected, with a cancellation or any
  other failure, the promise \<^verbatim>\<open>fetchHints\<close> returns is fulfilled with null; it is
  never rejected, whatever the outcome; and the handler chained to it does nothing
  on null.
\<close>

theorem fetchHints_null_on_failure:
  "fst (fetchHints_settle task (Inl e) s) = Inr None \<and>
   (\<forall>outcome. \<exists>r. fst (fetchHints_settle task outcome s) = Inr r) \<and>
   then_render task (fst (fetchHints_settle task (Inl e) s)) s' = s'"
proof -
  have "\<exists>r. fst (fetchHints_settle task outcome s) = Inr r" for outcome
    by (cases outcome) (simp_all add: fetchHints_settle_def catch_null_def)
  then show ?thesis
    by (simp add: fetchHints_settle_def catch_null_def then_render_def)
qed

text \<open>
  C8. \<^verbatim>\<open>renderHints\<close> clears the namespace and then paints, for each kind enabled in
  the configuration, one virtual text per hint of that kind, in the order of the
  list: the text is the kind's separator followed by the hint's label, the line is
  the line of the end of the hint's range, the highlight group is the kind's; the
  chaining hints are painted first. A kind that is disabled, and the parameter kind,
  paint nothing. In scenario 1 (a type hint at line 3, a chaining hint at line 5, both
  kinds enabled) the chaining overlay is painted at line 5 and the type overlay at
  line 3; in scenario 2 (type hints disabled) only the chaining overlay is painted.
\<close>

theorem renderHints_paints:
  "renderHints cfg hints buf =
     (if chainingHints cfg
      then map (overlay_of (chainingHintsSeparator cfg) ''CocRustChainingHint'')
             (filter (\<lambda>h. kind h = ChainingHint) hints)
      else []) @
     (if typeHints cfg
      then map (overlay_of (typeHintsSeparator cfg) ''CocRustTypeHint'')
             (filter (\<lambda>h. kind h = TypeHint) hints)
      else [])
   \<and> renderHints (scenario_config True) scenario_hints buf =
       [\<lparr>vline = 5, chunks = [([CHR '' '', CHR 0xBB, CHR '' ''] @ ''-> i32'', ''CocRustChainingHint'')]\<rparr>,
        \<lparr>vline = 3, chunks = [('': '' @ '': i32'', ''CocRustTypeHint'')]\<rparr>]
   \<and> renderHints (scenario_config False) scenario_hints buf =
       [\<lparr>vline = 5, chunks = [([CHR '' '', CHR 0xBB, CHR '' ''] @ ''-> i32'', ''CocRustChainingHint'')]\<rparr>]"
proof -
  have general: "renderHints c hs b =
     (if chainingHints c
      then map (overlay_of (chainingHintsSeparator c) ''CocRustChainingHint'')
             (filter (\<lambda>h. kind h = ChainingHint) hs)
      else []) @
     (if typeHints c
      then map (overlay_of (typeHintsSeparator c) ''CocRustTypeHint'')
             (filter (\<lambda>h. kind h = TypeHint) hs)
      else [])" for c hs b
    by (simp add: renderHints_def Let_def draw_map bucket_type bucket_chaining clearNamespace_def)
  have one: "renderHints (scenario_config True) scenario_hints buf =
       [\<lparr>vline = 5, chunks = [([CHR '' '', CHR 0xBB, CHR '' ''] @ ''-> i32'', ''CocRustChainingHint'')]\<rparr>,
        \<lparr>vline = 3, chunks = [('': '' @ '': i32'', ''CocRustTypeHint'')]\<rparr>]"
    by (simp add: general scenario_config_def scenario_hints_def hint_at_def overlay_of_def)
  have two: "renderHints (scenario_config False) scenario_hints buf =
       [\<lparr>vline = 5, chunks = [([CHR '' '', CHR 0xBB, CHR '' ''] @ ''-> i32'', ''CocRustChainingHint'')]\<rparr>]"
    by (simp add: general scenario_config_def scenario_hints_def hint_at_def overlay_of_def)
  from general one two show ?thesis by blast
qed

text \<open>
  C9. The handler of \<^verbatim>\<open>onDidOpenTextDocument\<close> registers the document: registering
  twice is registering once; on a tracked document it changes nothing, so the file
  and its \<^verbatim>\<open>inlaysRequest\<close> are kept; on an untracked one it adds one entry, with no
  request, after the others; the request recorded for any document is the same
  before and after; and unique keys stay unique.
\<close>

theorem register_idempotent:
  "register e (register e s) = register e s \<and>
   (map_of (sourceFiles s) (uri e) = Some fl \<longrightarrow> register e s = s) \<and>
   (map_of (sourceFiles s) (uri e) = None \<longrightarrow>
      sourceFiles (register e s) =
        sourceFiles s @ [(uri e, \<lparr>inlaysRequest = None, document = e\<rparr>)]) \<and>
   pendingRequest (register e s) = pendingRequest s \<and>
   (distinct (map fst (sourceFiles s)) \<longrightarrow> distinct (map fst (sourceFiles (register e s))))"
proof -
  have "\<exists>f. map_of (sourceFiles (register e s)) (uri e) = Some f"
    by (simp add: register_def Let_def map_of_map_set)
  then have twice: "register e (register e s) = register e s"
    by (auto simp: register_tracked)
  have keys: "distinct (map fst (sourceFiles s)) \<longrightarrow>
      distinct (map fst (sourceFiles (register e s)))"
    by (simp add: register_def Let_def distinct_map_set)
  from twice keys show ?thesis
    by (simp add: register_tracked register_untracked)
qed

text \<open>
  The theorem at the example: \<open>b.rs\<close> is tracked in \<open>example_B_resolved\<close>, with token
  source 3 recorded.
\<close>

theorem register_idempotent_witness:
  "map_of (sourceFiles example_B_resolved) (uri b_rs) =
     Some \<lparr>inlaysRequest = Some 3, document = b_rs\<rparr> \<and>
   register b_rs example_B_resolved = example_B_resolved \<and>
   pendingRequest (register b_rs example_B_resolved) ''b.rs'' = Some 3 \<and>
   distinct (map fst (sourceFiles example_B_resolved)) \<and>
   distinct (map fst (sourceFiles (register b_rs example_B_resolved)))"
proof -
  have files: "map_of (sourceFiles example_B_resolved) (uri b_rs) =
      Some \<lparr>inlaysRequest = Some 3, document = b_rs\<rparr>"
    by (simp add: example_B_resolved_def example_superseded_def eval_defs)
  have keys: "distinct (map fst (sourceFiles example_B_resolved))"
    by (simp add: example_B_resolved_def example_superseded_def eval_defs)
  have pend: "pendingRequest example_B_resolved ''b.rs'' = Some 3"
    using files by (simp add: pendingRequest_def b_rs_def)
  note inst = register_idempotent [of b_rs example_B_resolved "\<lparr>inlaysRequest = Some 3, document = b_rs\<rparr>"]
  from inst files have same: "register b_rs example_B_resolved = example_B_resolved" by blast
  from inst pend have pend': "pendingRequest (register b_rs example_B_resolved) ''b.rs'' = Some 3"
    by simp
  from inst keys have keys': "distinct (map fst (sourceFiles (register b_rs example_B_resolved)))"
    by blast
  from files same pend' keys keys' show ?thesis by (intro conjI)
qed

text \<open>
  C10. When a Rust document changes while the editor is in insert mode and
  \<^verbatim>\<open>refreshOnInsertMode\<close> is false, the handler clears the namespace in the buffer of
  that document and returns: the state is the one before with that buffer cleared.
  No pass is started, no fetch is issued and no recorded request changes.
\<close>

theorem change_in_insert_mode:
  assumes "isRustDocument d" and "insertMode s" and "\<not> refreshOnInsertMode (config s)"
  shows "onDidChangeTextDocument (Some d) s = s\<lparr>namespace := (namespace s)(uri d := [])\<rparr> \<and>
     (ChangeListener \<in> set (listeners s) \<longrightarrow>
        step (DidChangeTextDocument (Some d)) s = s\<lparr>namespace := (namespace s)(uri d := [])\<rparr>) \<and>
     syncsAwaiting (onDidChangeTextDocument (Some d) s) = syncsAwaiting s \<and>
     fetches (onDidChangeTextDocument (Some d) s) = fetches s \<and>
     pendingRequest (onDidChangeTextDocument (Some d) s) = pendingRequest s"
proof -
  have eq: "onDidChangeTextDocument (Some d) s = s\<lparr>namespace := (namespace s)(uri d := [])\<rparr>"
    using assms
    by (simp add: onDidChangeTextDocument_def Let_def clear_buffer_def clearNamespace_def)
  have "pendingRequest (s\<lparr>namespace := (namespace s)(uri d := [])\<rparr>) = pendingRequest s"
    by (rule pendingRequest_frame) simp
  with eq show ?thesis by simp
qed

text \<open>
  The theorem at the example: \<open>a.rs\<close> shows \<open>hint_A\<close>, the editor is in insert mode, and
  \<open>a.rs\<close> changes.
\<close>

theorem change_in_insert_mode_witness:
  "isRustDocument a_rs \<and> insertMode example_insert_mode \<and>
   \<not> refreshOnInsertMode (config example_insert_mode) \<and>
   ChangeListener \<in> set (listeners example_insert_mode) \<and>
   namespace example_insert_mode ''a.rs'' = [overlay_of '': '' ''CocRustTypeHint'' hint_A] \<and>
   step (DidChangeTextDocument (Some a_rs)) example_insert_mode =
     example_insert_mode\<lparr>namespace := (namespace example_insert_mode)(''a.rs'' := [])\<rparr>"
proof -
  have rust: "isRustDocument a_rs" by (simp add: a_rs_def)
  have ins: "insertMode example_insert_mode"
    by (simp add: example_insert_mode_def eval_defs)
  have cfg: "\<not> refreshOnInsertMode (config example_insert_mode)"
    by (simp add: example_insert_mode_def eval_defs)
  have lst: "ChangeListener \<in> set (listeners example_insert_mode)"
    by (simp add: example_insert_mode_def eval_defs)
  have ns: "namespace example_insert_mode ''a.rs'' = [overlay_of '': '' ''CocRustTypeHint'' hint_A]"
    by (simp add: example_insert_mode_def eval_defs overlay_of_def hint_A_def)
  have u: "uri a_rs = ''a.rs''" by (simp add: a_rs_def)
  from change_in_insert_mode [OF rust ins cfg] lst
  have "step (DidChangeTextDocument (Some a_rs)) example_insert_mode =
      example_insert_mode\<lparr>namespace := (namespace example_insert_mode)(uri a_rs := [])\<rparr>"
    by blast
  then have st: "step (DidChangeTextDocument (Some a_rs)) example_insert_mode =
      example_insert_mode\<lparr>namespace := (namespace example_insert_mode)(''a.rs'' := [])\<rparr>"
    by (simp only: u)
  from rust ins cfg lst ns st show ?thesis by (intro conjI)
qed

end
